theory Spec2Isabelle
  imports Main "HOL-Library.Word"
begin

unbundle bit_operations_syntax

section \<open>The libev stubs of Lwt (src/unix/lwt\_libev\_stubs.c)\<close>

text \<open>
  The file is a thin layer of C stubs between OCaml code and two external libraries:
  libev (the multiplexer) and the OCaml runtime. Its own state is two static variables,
  \<^verbatim>\<open>lwt_unix_main_loop\<close> and \<^verbatim>\<open>lwt_unix_in_blocking_section\<close>. Everything else
  it touches belongs to the libraries: the C heap holding the watcher structs, the
  set of started watchers of the loop, the custom blocks and the generational global
  roots of the OCaml runtime.

  The stubs are embedded as state transformers over a record holding the two statics
  and the part of the libraries' state the stubs act on. The external functions are
  modelled by their documented effect (libev's ev.pod, the OCaml manual's chapter on
  interfacing with C); each one is a definition with the name of the C function.
\<close>

subsection \<open>Data\<close>

type_synonym addr = nat       \<comment> \<open>address of a watcher struct on the C heap\<close>
type_synonym handle = nat     \<comment> \<open>an OCaml custom block\<close>
type_synonym callback = nat   \<comment> \<open>an OCaml closure value\<close>
type_synonym ev_tstamp = "64 word"  \<comment> \<open>a C double, as its bit pattern; the stubs only pass it on\<close>

text \<open>The three trampolines of the file, as the function pointers stored in a watcher.\<close>

datatype handler = Handle_io | Handle_signal | Handle_timer

text \<open>The kind-specific fields of \<^verbatim>\<open>ev_io\<close> (fd, events), \<^verbatim>\<open>ev_signal\<close> (signum)
  and \<^verbatim>\<open>ev_timer\<close> (after, repeat).\<close>

datatype ev_kind = Ev_io int int | Ev_signal int | Ev_timer ev_tstamp ev_tstamp

record ev_watcher =
  active :: bool
  cb :: handler
  data :: "callback option"   \<comment> \<open>\<^verbatim>\<open>void *data\<close>; \<open>None\<close> while not yet assigned\<close>
  kind :: ev_kind

text \<open>A block returned by the allocator is uninitialised until \<^verbatim>\<open>ev_*_init\<close> fills it.\<close>

datatype cell = Uninit | Watcher ev_watcher

text \<open>The fields of libev's \<^verbatim>\<open>struct ev_loop\<close> that the stubs can influence.\<close>

record ev_loop_t =
  loop_flags :: int
  watchers :: "addr set"      \<comment> \<open>the started watchers\<close>
  pendings :: "addr list"     \<comment> \<open>the watchers with an event queued and not yet served, first to serve first\<close>
  loop_done :: int            \<comment> \<open>the pending \<^verbatim>\<open>ev_unloop\<close> request\<close>

text \<open>Constants of \<^verbatim>\<open>ev.h\<close> (libev 3).\<close>

definition EVFLAG_FORKCHECK :: int where "EVFLAG_FORKCHECK = 33554432"
definition EVLOOP_NONBLOCK :: int where "EVLOOP_NONBLOCK = 1"
definition EVLOOP_ONESHOT :: int where "EVLOOP_ONESHOT = 2"
definition EVUNLOOP_CANCEL :: int where "EVUNLOOP_CANCEL = 0"
definition EVUNLOOP_ONE :: int where "EVUNLOOP_ONE = 1"
definition EVUNLOOP_ALL :: int where "EVUNLOOP_ALL = 2"
definition EV_READ :: int where "EV_READ = 1"
definition EV_WRITE :: int where "EV_WRITE = 2"

text \<open>
  A custom block holds a pointer to its operations (here always \<^verbatim>\<open>&watcher_ops\<close>)
  and one word of data, the pointer to the watcher struct.
\<close>

datatype ops_ptr = Watcher_ops

record custom_block =
  block_ops :: ops_ptr
  block_data :: "addr option"

text \<open>
  The log lists, in order, what a stub does outside its own two variables: the calls
  into libev, the OCaml runtime and the allocator, and the stores into heap objects.
  Each entry is stamped with the value \<^verbatim>\<open>lwt_unix_in_blocking_section\<close> has at that
  moment. \<open>Backend_poll\<close> is libev asking the operating system for events, which is
  where a round that waits does wait; \<open>Ev_invoke\<close> is libev calling the \<^verbatim>\<open>cb\<close> of
  a watcher.
\<close>

datatype event =
    Caml_enter_blocking_section
  | Caml_leave_blocking_section
  | Caml_callback callback
  | Caml_failwith string
  | Caml_alloc_custom handle
  | Caml_register_generational_global_root addr
  | Caml_remove_generational_global_root addr
  | Store_custom handle addr
  | Store_data addr callback
  | Lwt_unix_new addr
  | Free addr
  | Ev_default_loop int
  | Ev_loop_destroy
  | Ev_loop int
  | Backend_poll
  | Ev_unloop int
  | Ev_invoke addr
  | Ev_io_init addr handler int int
  | Ev_signal_init addr handler int
  | Ev_timer_init addr handler ev_tstamp ev_tstamp
  | Ev_io_start addr
  | Ev_signal_start addr
  | Ev_timer_start addr
  | Ev_io_stop addr
  | Ev_signal_stop addr
  | Ev_timer_stop addr

text \<open>The OCaml exceptions that matter here: \<open>Failure\<close>, and any other, numbered.\<close>

datatype caml_exn = Failure string | User_exn nat

record state =
  lwt_unix_main_loop :: "ev_loop_t option"     \<comment> \<open>the static pointer with the loop it owns; \<open>None\<close> is NULL\<close>
  lwt_unix_in_blocking_section :: int
  heap :: "addr \<rightharpoonup> cell"
  custom_blocks :: "handle \<rightharpoonup> custom_block"
  global_roots :: "addr set"                   \<comment> \<open>watchers whose \<^verbatim>\<open>data\<close> slot is a registered root\<close>
  caml_blocking :: bool                        \<comment> \<open>the thread is inside a blocking section of the runtime\<close>
  signal_exn :: "caml_exn option"              \<comment> \<open>a signal is pending whose OCaml handler raises this exception\<close>
  trace :: "(event \<times> int) list"

text \<open>
  How a stub can end: by returning, by raising an OCaml exception (\<open>Raised\<close>, which
  OCaml code may catch), by ending the process, or in undefined behaviour of C (a NULL
  loop, a released descriptor). \<open>Nesting_exhausted\<close> and \<open>Not_fresh\<close> belong to the
  model: the bound on nested callbacks is used up, or the allocator was told to return
  a block that is still live, which no allocator does.
\<close>

datatype error =
    Raised caml_exn
  | Process_abort
  | Undefined_behaviour
  | Nesting_exhausted
  | Not_fresh

type_synonym result = "(error \<times> state) + state"
type_synonym step = "state \<Rightarrow> result"
type_synonym closure_sem = "callback \<Rightarrow> state \<Rightarrow> result"

definition state_of :: "result \<Rightarrow> state" where
  "state_of r = (case r of Inl (e, s) \<Rightarrow> s | Inr s \<Rightarrow> s)"

definition map_state :: "(state \<Rightarrow> state) \<Rightarrow> result \<Rightarrow> result" where
  "map_state f r = (case r of Inl (e, s) \<Rightarrow> Inl (e, f s) | Inr s \<Rightarrow> Inr (f s))"

text \<open>Statements in sequence; the first one that does not return ends the stub.\<close>

fun steps :: "step list \<Rightarrow> step" where
  "steps [] s = Inr s"
| "steps (f # fs) s = (case f s of Inl e \<Rightarrow> Inl e | Inr s' \<Rightarrow> steps fs s')"

definition log :: "event \<Rightarrow> state \<Rightarrow> state" where
  "log e s = s\<lparr>trace := trace s @ [(e, lwt_unix_in_blocking_section s)]\<rparr>"

definition relog :: "(event \<times> int) list \<Rightarrow> state \<Rightarrow> state" where
  "relog t s = s\<lparr>trace := t @ trace s\<rparr>"

subsection \<open>The OCaml runtime\<close>

text \<open>
  \<^verbatim>\<open>caml_enter_blocking_section\<close> first runs the handlers of the signals that are
  pending, and only then releases the runtime. A handler is OCaml code: when it raises,
  the exception leaves \<^verbatim>\<open>caml_enter_blocking_section\<close>, and the stub that called it,
  at once, the runtime not released.
\<close>

definition caml_enter_blocking_section :: step where
  "caml_enter_blocking_section s =
     (case signal_exn s of
        Some e \<Rightarrow> Inl (Raised e, (log Caml_enter_blocking_section s)\<lparr>signal_exn := None\<rparr>)
      | None \<Rightarrow> Inr ((log Caml_enter_blocking_section s)\<lparr>caml_blocking := True\<rparr>))"

definition caml_leave_blocking_section :: step where
  "caml_leave_blocking_section s = Inr ((log Caml_leave_blocking_section s)\<lparr>caml_blocking := False\<rparr>)"

text \<open>\<^verbatim>\<open>caml_failwith\<close> raises the OCaml exception \<open>Failure\<close>; it does not return.\<close>

definition caml_failwith :: "string \<Rightarrow> step" where
  "caml_failwith msg s = Inl (Raised (Failure msg), log (Caml_failwith msg) s)"

text \<open>
  \<^verbatim>\<open>caml_callback\<close> runs a closure. What the closure does is the parameter \<open>run\<close>.
  The closure sees the program state but not the log; what it logs itself (through the
  stubs it calls) is appended. An exception of the closure is raised again in the caller.
\<close>

definition caml_callback :: "closure_sem \<Rightarrow> callback \<Rightarrow> step" where
  "caml_callback run c s =
     (let s1 = log (Caml_callback c) s
      in map_state (relog (trace s1)) (run c (s1\<lparr>trace := []\<rparr>)))"

definition caml_alloc_custom :: "ops_ptr \<Rightarrow> handle \<Rightarrow> step" where
  "caml_alloc_custom ops h s =
     (if h \<in> dom (custom_blocks s) then Inl (Not_fresh, s)
      else Inr ((log (Caml_alloc_custom h) s)
                  \<lparr>custom_blocks := (custom_blocks s)(h \<mapsto> \<lparr>block_ops = ops, block_data = None\<rparr>)\<rparr>))"

definition caml_register_generational_global_root :: "addr \<Rightarrow> step" where
  "caml_register_generational_global_root a s =
     Inr ((log (Caml_register_generational_global_root a) s)
            \<lparr>global_roots := insert a (global_roots s)\<rparr>)"

definition caml_remove_generational_global_root :: "addr \<Rightarrow> step" where
  "caml_remove_generational_global_root a s =
     Inr ((log (Caml_remove_generational_global_root a) s)
            \<lparr>global_roots := global_roots s - {a}\<rparr>)"

subsection \<open>The allocator\<close>

text \<open>
  Modelled from the spec: \<^verbatim>\<open>lwt_unix_new\<close> is a macro of \<^verbatim>\<open>lwt_unix.h\<close>, which is
  not among the sources; the spec says of it "allocate the OS-level descriptor". The
  address \<open>a\<close> is the allocator's choice.
\<close>

definition lwt_unix_new :: "addr \<Rightarrow> step" where
  "lwt_unix_new a s =
     (if a \<in> dom (heap s) then Inl (Not_fresh, s)
      else Inr ((log (Lwt_unix_new a) s)\<lparr>heap := (heap s)(a \<mapsto> Uninit)\<rparr>))"

definition free :: "addr \<Rightarrow> step" where
  "free a s =
     (case heap s a of
        None \<Rightarrow> Inl (Undefined_behaviour, log (Free a) s)
      | Some c \<Rightarrow> Inr ((log (Free a) s)\<lparr>heap := (heap s)(a := None)\<rparr>))"

subsection \<open>libev\<close>

text \<open>\<^verbatim>\<open>ev_default_loop\<close>: \<open>ok\<close> says whether libev manages to set the loop up.\<close>

definition ev_default_loop :: "int \<Rightarrow> bool \<Rightarrow> ev_loop_t option" where
  "ev_default_loop flags ok =
     (if ok then Some \<lparr>loop_flags = flags, watchers = {}, pendings = [], loop_done = EVUNLOOP_CANCEL\<rparr>
      else None)"

definition ev_init :: "event \<Rightarrow> addr \<Rightarrow> handler \<Rightarrow> ev_kind \<Rightarrow> step" where
  "ev_init e a h k s =
     (case heap s a of
        None \<Rightarrow> Inl (Undefined_behaviour, log e s)
      | Some c \<Rightarrow>
          Inr ((log e s)\<lparr>heap := (heap s)(a \<mapsto> Watcher
                 \<lparr>active = False, cb = h,
                  data = (case c of Uninit \<Rightarrow> None | Watcher w \<Rightarrow> data w),
                  kind = k\<rparr>)\<rparr>))"

definition ev_io_init :: "addr \<Rightarrow> handler \<Rightarrow> int \<Rightarrow> int \<Rightarrow> step" where
  "ev_io_init a h fd events = ev_init (Ev_io_init a h fd events) a h (Ev_io fd events)"

definition ev_signal_init :: "addr \<Rightarrow> handler \<Rightarrow> int \<Rightarrow> step" where
  "ev_signal_init a h signum = ev_init (Ev_signal_init a h signum) a h (Ev_signal signum)"

definition ev_timer_init :: "addr \<Rightarrow> handler \<Rightarrow> ev_tstamp \<Rightarrow> ev_tstamp \<Rightarrow> step" where
  "ev_timer_init a h after repeat = ev_init (Ev_timer_init a h after repeat) a h (Ev_timer after repeat)"

fun is_io :: "ev_kind \<Rightarrow> bool" where
  "is_io (Ev_io fd events) = True"
| "is_io k = False"

fun is_signal :: "ev_kind \<Rightarrow> bool" where
  "is_signal (Ev_signal n) = True"
| "is_signal k = False"

fun is_timer :: "ev_kind \<Rightarrow> bool" where
  "is_timer (Ev_timer after repeat) = True"
| "is_timer k = False"

text \<open>
  Starting a watcher that is already active does nothing; otherwise it becomes active
  and joins the loop. Stopping a watcher first takes its event, if one is queued, off
  the queue (ev.pod: "Stops the given watcher if active, and clears the pending
  status"); one that is not active is left at that, an active one leaves the loop. The
  loop argument of the stubs is always \<^verbatim>\<open>lwt_unix_main_loop\<close>; NULL, a released or
  uninitialised struct, or a struct of another kind is undefined behaviour.
\<close>

definition clear_pending :: "addr \<Rightarrow> ev_loop_t \<Rightarrow> ev_loop_t" where
  "clear_pending a l = l\<lparr>pendings := removeAll a (pendings l)\<rparr>"

definition ev_start :: "event \<Rightarrow> (ev_kind \<Rightarrow> bool) \<Rightarrow> addr \<Rightarrow> step" where
  "ev_start e of_kind a s =
     (case (lwt_unix_main_loop s, heap s a) of
        (Some l, Some (Watcher w)) \<Rightarrow>
          if \<not> of_kind (kind w) then Inl (Undefined_behaviour, log e s)
          else if active w then Inr (log e s)
          else Inr ((log e s)
                 \<lparr>lwt_unix_main_loop := Some (l\<lparr>watchers := insert a (watchers l)\<rparr>),
                  heap := (heap s)(a \<mapsto> Watcher (w\<lparr>active := True\<rparr>))\<rparr>)
      | _ \<Rightarrow> Inl (Undefined_behaviour, log e s))"

definition ev_stop :: "event \<Rightarrow> (ev_kind \<Rightarrow> bool) \<Rightarrow> addr \<Rightarrow> step" where
  "ev_stop e of_kind a s =
     (case (lwt_unix_main_loop s, heap s a) of
        (Some l, Some (Watcher w)) \<Rightarrow>
          if \<not> of_kind (kind w) then Inl (Undefined_behaviour, log e s)
          else if \<not> active w then
            Inr ((log e s)\<lparr>lwt_unix_main_loop := Some (clear_pending a l)\<rparr>)
          else Inr ((log e s)
                 \<lparr>lwt_unix_main_loop := Some ((clear_pending a l)\<lparr>watchers := watchers l - {a}\<rparr>),
                  heap := (heap s)(a \<mapsto> Watcher (w\<lparr>active := False\<rparr>))\<rparr>)
      | _ \<Rightarrow> Inl (Undefined_behaviour, log e s))"

definition ev_io_start :: "addr \<Rightarrow> step" where
  "ev_io_start a = ev_start (Ev_io_start a) is_io a"

definition ev_signal_start :: "addr \<Rightarrow> step" where
  "ev_signal_start a = ev_start (Ev_signal_start a) is_signal a"

definition ev_timer_start :: "addr \<Rightarrow> step" where
  "ev_timer_start a = ev_start (Ev_timer_start a) is_timer a"

definition ev_io_stop :: "addr \<Rightarrow> step" where
  "ev_io_stop a = ev_stop (Ev_io_stop a) is_io a"

definition ev_signal_stop :: "addr \<Rightarrow> step" where
  "ev_signal_stop a = ev_stop (Ev_signal_stop a) is_signal a"

definition ev_timer_stop :: "addr \<Rightarrow> step" where
  "ev_timer_stop a = ev_stop (Ev_timer_stop a) is_timer a"

definition ev_loop_destroy :: step where
  "ev_loop_destroy s =
     (case lwt_unix_main_loop s of
        None \<Rightarrow> Inl (Undefined_behaviour, log Ev_loop_destroy s)
      | Some l \<Rightarrow> Inr (log Ev_loop_destroy s))"

definition ev_unloop :: "int \<Rightarrow> step" where
  "ev_unloop how s =
     (case lwt_unix_main_loop s of
        None \<Rightarrow> Inl (Undefined_behaviour, log (Ev_unloop how) s)
      | Some l \<Rightarrow> Inr ((log (Ev_unloop how) s)\<lparr>lwt_unix_main_loop := Some (l\<lparr>loop_done := how\<rparr>)\<rparr>))"


subsection \<open>The blocking section (lines 67 to 73)\<close>

definition assign_in_blocking_section :: "int \<Rightarrow> step" where
  "assign_in_blocking_section v s = Inr (s\<lparr>lwt_unix_in_blocking_section := v\<rparr>)"

definition LWT_UNIX_CHECK :: step where
  "LWT_UNIX_CHECK s =
     (if lwt_unix_in_blocking_section s \<noteq> 0 then
        steps [assign_in_blocking_section 0, caml_leave_blocking_section] s
      else Inr s)"

subsection \<open>The trampolines (lines 132, 179, 216)\<close>

text \<open>\<^verbatim>\<open>(value)watcher->data\<close>: the closure stored in the struct at \<open>a\<close>.\<close>

definition callback_of :: "addr \<Rightarrow> closure_sem \<Rightarrow> step" where
  "callback_of a run s =
     (case heap s a of
        Some (Watcher w) \<Rightarrow>
          (case data w of
             Some c \<Rightarrow> caml_callback run c s
           | None \<Rightarrow> Inl (Undefined_behaviour, s))
      | _ \<Rightarrow> Inl (Undefined_behaviour, s))"

definition handle_io :: "closure_sem \<Rightarrow> addr \<Rightarrow> step" where
  "handle_io run watcher = steps [LWT_UNIX_CHECK, callback_of watcher run]"

definition handle_signal :: "closure_sem \<Rightarrow> addr \<Rightarrow> step" where
  "handle_signal run watcher = steps [LWT_UNIX_CHECK, callback_of watcher run]"

definition handle_timer :: "closure_sem \<Rightarrow> addr \<Rightarrow> step" where
  "handle_timer run watcher = steps [LWT_UNIX_CHECK, callback_of watcher run]"

fun call_handler :: "handler \<Rightarrow> closure_sem \<Rightarrow> addr \<Rightarrow> step" where
  "call_handler Handle_io run a = handle_io run a"
| "call_handler Handle_signal run a = handle_signal run a"
| "call_handler Handle_timer run a = handle_timer run a"

subsection \<open>One round of the multiplexer\<close>

text \<open>
  \<^verbatim>\<open>ev_loop\<close> as ev.pod lists its steps: before the first iteration it calls any
  pending watchers; it blocks the process, waiting for events; it queues the
  outstanding events of descriptors and the expired timers; it calls all queued
  watchers; and when \<^verbatim>\<open>EVLOOP_ONESHOT\<close> or \<^verbatim>\<open>EVLOOP_NONBLOCK\<close> was given, as in
  both stubs, it returns after this one pass.

  The loop keeps a queue of the watchers with an event not yet served. Events stay in
  it when a round is left by the exception of a closure, and while a closure, called
  from a round, runs a round of its own; so a round can find events queued when it
  starts, and libev then calls their trampolines before it turns to the operating
  system.

  Which watchers the operating system reports in a round is its choice, the list
  \<open>ready\<close>. A watcher that is not started, or has an event queued already, is passed
  over. A timer whose \<^verbatim>\<open>repeat\<close> is zero is stopped by libev when its event is queued
  (ev.pod: "If it is 0., then it will automatically be stopped once the timeout is
  reached"). A round starts by clearing the unloop request of the loop, and clears a
  one-level request again when it ends. The events of one poll are served in the order
  of \<open>ready\<close>, which stands for the order libev serves them in (by priority, and
  within one priority the last queued first).
\<close>

definition timers_reify :: "addr \<Rightarrow> step" where
  "timers_reify a s =
     (case (lwt_unix_main_loop s, heap s a) of
        (Some l, Some (Watcher w)) \<Rightarrow>
          (case kind w of
             Ev_timer after repeat \<Rightarrow>
               if repeat = 0 then
                 Inr (s\<lparr>lwt_unix_main_loop := Some (l\<lparr>watchers := watchers l - {a}\<rparr>),
                        heap := (heap s)(a \<mapsto> Watcher (w\<lparr>active := False\<rparr>))\<rparr>)
               else Inr s
           | _ \<Rightarrow> Inr s)
      | _ \<Rightarrow> Inl (Undefined_behaviour, s))"

definition ev_feed_event :: "addr \<Rightarrow> step" where
  "ev_feed_event a s =
     (case lwt_unix_main_loop s of
        None \<Rightarrow> Inl (Undefined_behaviour, s)
      | Some l \<Rightarrow> Inr (s\<lparr>lwt_unix_main_loop := Some (l\<lparr>pendings := pendings l @ [a]\<rparr>)\<rparr>))"

fun queue_events :: "addr list \<Rightarrow> step" where
  "queue_events [] s = Inr s"
| "queue_events (a # ready) s =
     (case lwt_unix_main_loop s of
        None \<Rightarrow> Inl (Undefined_behaviour, s)
      | Some l \<Rightarrow>
          if a \<in> watchers l \<and> a \<notin> set (pendings l) then
            steps [timers_reify a, ev_feed_event a, queue_events ready] s
          else queue_events ready s)"

definition backend_poll :: step where
  "backend_poll s =
     (case lwt_unix_main_loop s of
        None \<Rightarrow> Inl (Undefined_behaviour, s)
      | Some l \<Rightarrow> Inr (log Backend_poll s))"

definition ev_invoke :: "closure_sem \<Rightarrow> addr \<Rightarrow> step" where
  "ev_invoke run a s =
     (case heap s a of
        Some (Watcher w) \<Rightarrow> call_handler (cb w) run a (log (Ev_invoke a) s)
      | _ \<Rightarrow> Inl (Undefined_behaviour, s))"

text \<open>
  \<^verbatim>\<open>call_pending\<close> serves the queue until it is empty; an event is taken off the queue
  before its trampoline is called. A closure can add events to the queue only by a
  round of its own, which serves them before it returns, so closures never return with
  a longer queue than they found (lemma \<open>shrinks_run_closure\<close>), and as many turns as
  there are events queued serve them all (lemma \<open>drained_call_pending\<close>).
\<close>

fun call_pending_upto :: "nat \<Rightarrow> closure_sem \<Rightarrow> step" where
  "call_pending_upto 0 run s = Inr s"
| "call_pending_upto (Suc k) run s =
     (case lwt_unix_main_loop s of
        None \<Rightarrow> Inl (Undefined_behaviour, s)
      | Some l \<Rightarrow>
          (case pendings l of
             [] \<Rightarrow> Inr s
           | a # q \<Rightarrow>
               steps [ev_invoke run a, call_pending_upto k run]
                 (s\<lparr>lwt_unix_main_loop := Some (l\<lparr>pendings := q\<rparr>)\<rparr>)))"

definition call_pending :: "closure_sem \<Rightarrow> step" where
  "call_pending run s =
     (case lwt_unix_main_loop s of
        None \<Rightarrow> Inl (Undefined_behaviour, s)
      | Some l \<Rightarrow> call_pending_upto (length (pendings l)) run s)"

definition set_loop_done :: "int \<Rightarrow> step" where
  "set_loop_done how s =
     (case lwt_unix_main_loop s of
        None \<Rightarrow> Inl (Undefined_behaviour, s)
      | Some l \<Rightarrow> Inr (s\<lparr>lwt_unix_main_loop := Some (l\<lparr>loop_done := how\<rparr>)\<rparr>))"

definition ev_loop_leave :: step where
  "ev_loop_leave s =
     (case lwt_unix_main_loop s of
        None \<Rightarrow> Inl (Undefined_behaviour, s)
      | Some l \<Rightarrow> if loop_done l = EVUNLOOP_ONE then set_loop_done EVUNLOOP_CANCEL s else Inr s)"

definition ev_loop :: "closure_sem \<Rightarrow> addr list \<Rightarrow> int \<Rightarrow> step" where
  "ev_loop run ready flags =
     steps [\<lambda>s. Inr (log (Ev_loop flags) s),
            set_loop_done EVUNLOOP_CANCEL,
            call_pending run,
            backend_poll,
            queue_events ready,
            call_pending run,
            ev_loop_leave]"

subsection \<open>Initialisation (lines 45 to 61)\<close>

definition assign_main_loop :: "ev_loop_t option \<Rightarrow> step" where
  "assign_main_loop p s = Inr ((log (Ev_default_loop EVFLAG_FORKCHECK) s)\<lparr>lwt_unix_main_loop := p\<rparr>)"

definition lwt_libev_init :: "bool \<Rightarrow> step" where
  "lwt_libev_init ok s =
     (if lwt_unix_main_loop s = None then
        steps [assign_main_loop (ev_default_loop EVFLAG_FORKCHECK ok),
               \<lambda>s. if lwt_unix_main_loop s = None
                    then caml_failwith ''lwt_libev_init: could not initialise the default loop'' s
                    else Inr s] s
      else Inr s)"

definition lwt_libev_stop :: step where
  "lwt_libev_stop s =
     (if lwt_unix_main_loop s \<noteq> None then
        steps [ev_loop_destroy, \<lambda>s. Inr (s\<lparr>lwt_unix_main_loop := None\<rparr>)] s
      else Inr s)"

subsection \<open>Main loop (lines 75 to 97)\<close>

definition lwt_libev_loop :: "closure_sem \<Rightarrow> addr list \<Rightarrow> step" where
  "lwt_libev_loop run ready =
     steps [caml_enter_blocking_section,
            assign_in_blocking_section 1,
            ev_loop run ready EVLOOP_ONESHOT,
            LWT_UNIX_CHECK]"

definition lwt_libev_loop_no_wait :: "closure_sem \<Rightarrow> addr list \<Rightarrow> step" where
  "lwt_libev_loop_no_wait run ready =
     steps [caml_enter_blocking_section,
            assign_in_blocking_section 1,
            ev_loop run ready (EVLOOP_ONESHOT OR EVLOOP_NONBLOCK),
            LWT_UNIX_CHECK]"

definition lwt_libev_unloop :: step where
  "lwt_libev_unloop = ev_unloop EVUNLOOP_ONE"

subsection \<open>Watchers (lines 103 to 247)\<close>

text \<open>\<^verbatim>\<open>Ev_io_val(result) = watcher\<close> and its siblings: the store into the custom block.\<close>

definition store_custom :: "handle \<Rightarrow> addr \<Rightarrow> step" where
  "store_custom h a s =
     (case custom_blocks s h of
        None \<Rightarrow> Inl (Undefined_behaviour, s)
      | Some b \<Rightarrow> Inr ((log (Store_custom h a) s)
                        \<lparr>custom_blocks := (custom_blocks s)(h \<mapsto> b\<lparr>block_data := Some a\<rparr>)\<rparr>))"

text \<open>\<^verbatim>\<open>watcher->data = (void*)callback\<close>.\<close>

definition store_data :: "addr \<Rightarrow> callback \<Rightarrow> step" where
  "store_data a c s =
     (case heap s a of
        Some (Watcher w) \<Rightarrow>
          Inr ((log (Store_data a c) s)\<lparr>heap := (heap s)(a \<mapsto> Watcher (w\<lparr>data := Some c\<rparr>))\<rparr>)
      | _ \<Rightarrow> Inl (Undefined_behaviour, s))"

text \<open>The value a stub returns: \<^verbatim>\<open>Val_unit\<close>, or the custom block.\<close>

definition returning :: "handle \<Rightarrow> result \<Rightarrow> (error \<times> state) + (handle \<times> state)" where
  "returning h r = (case r of Inl e \<Rightarrow> Inl e | Inr s \<Rightarrow> Inr (h, s))"

text \<open>
  In the three init stubs \<open>a\<close> is the address the allocator returns and \<open>h\<close> the block
  \<^verbatim>\<open>caml_alloc_custom\<close> returns. \<^verbatim>\<open>FD_val\<close> (of \<^verbatim>\<open>lwt_unix.h\<close>) is taken as applied:
  \<open>fd\<close> is the C descriptor.
\<close>

definition lwt_libev_io_init :: "int \<Rightarrow> int \<Rightarrow> callback \<Rightarrow> addr \<Rightarrow> handle \<Rightarrow> state \<Rightarrow> (error \<times> state) + (handle \<times> state)" where
  "lwt_libev_io_init fd event callback a h s =
     returning h (steps [lwt_unix_new a,
                         ev_io_init a Handle_io fd event,
                         caml_alloc_custom Watcher_ops h,
                         store_custom h a,
                         store_data a callback,
                         caml_register_generational_global_root a,
                         ev_io_start a] s)"

definition lwt_libev_readable_init :: "int \<Rightarrow> callback \<Rightarrow> addr \<Rightarrow> handle \<Rightarrow> state \<Rightarrow> (error \<times> state) + (handle \<times> state)" where
  "lwt_libev_readable_init fd callback = lwt_libev_io_init fd EV_READ callback"

definition lwt_libev_writable_init :: "int \<Rightarrow> callback \<Rightarrow> addr \<Rightarrow> handle \<Rightarrow> state \<Rightarrow> (error \<times> state) + (handle \<times> state)" where
  "lwt_libev_writable_init fd callback = lwt_libev_io_init fd EV_WRITE callback"

text \<open>\<^verbatim>\<open>Ev_io_val(val_watcher)\<close>: the pointer held by the custom block, then the stop.\<close>

definition with_watcher :: "handle \<Rightarrow> (addr \<Rightarrow> step) \<Rightarrow> step" where
  "with_watcher val_watcher f s =
     (case custom_blocks s val_watcher of
        Some b \<Rightarrow> (case block_data b of Some watcher \<Rightarrow> f watcher s | None \<Rightarrow> Inl (Undefined_behaviour, s))
      | None \<Rightarrow> Inl (Undefined_behaviour, s))"

definition lwt_libev_io_stop :: "handle \<Rightarrow> step" where
  "lwt_libev_io_stop val_watcher =
     with_watcher val_watcher (\<lambda>watcher.
       steps [caml_remove_generational_global_root watcher,
              ev_io_stop watcher,
              free watcher])"

text \<open>\<open>conv\<close> is \<^verbatim>\<open>caml_convert_signal_number\<close>, a function of the OCaml runtime.\<close>

definition lwt_libev_signal_init :: "(int \<Rightarrow> int) \<Rightarrow> int \<Rightarrow> callback \<Rightarrow> addr \<Rightarrow> handle \<Rightarrow> state \<Rightarrow> (error \<times> state) + (handle \<times> state)" where
  "lwt_libev_signal_init conv signum callback a h s =
     returning h (steps [lwt_unix_new a,
                         ev_signal_init a Handle_signal (conv signum),
                         caml_alloc_custom Watcher_ops h,
                         store_custom h a,
                         store_data a callback,
                         caml_register_generational_global_root a,
                         ev_signal_start a] s)"

definition lwt_libev_signal_stop :: "handle \<Rightarrow> step" where
  "lwt_libev_signal_stop val_watcher =
     with_watcher val_watcher (\<lambda>watcher.
       steps [caml_remove_generational_global_root watcher,
              ev_signal_stop watcher,
              free watcher])"

definition lwt_libev_timer_init :: "ev_tstamp \<Rightarrow> callback \<Rightarrow> addr \<Rightarrow> handle \<Rightarrow> state \<Rightarrow> (error \<times> state) + (handle \<times> state)" where
  "lwt_libev_timer_init delay callback a h s =
     returning h (steps [lwt_unix_new a,
                         ev_timer_init a Handle_timer delay 0,
                         caml_alloc_custom Watcher_ops h,
                         store_custom h a,
                         store_data a callback,
                         caml_register_generational_global_root a,
                         ev_timer_start a] s)"

definition lwt_libev_timer_stop :: "handle \<Rightarrow> step" where
  "lwt_libev_timer_stop val_watcher =
     with_watcher val_watcher (\<lambda>watcher.
       steps [caml_remove_generational_global_root watcher,
              ev_timer_stop watcher,
              free watcher])"

subsection \<open>The custom operations of a handle (lines 119 to 126)\<close>

text \<open>
  \<^verbatim>\<open>custom_finalize_default\<close>, \<^verbatim>\<open>custom_serialize_default\<close> and
  \<^verbatim>\<open>custom_deserialize_default\<close> are NULL in \<^verbatim>\<open>caml/custom.h\<close>: no function.
\<close>

datatype c_function = Compare_watchers | Hash_watcher

record custom_operations =
  ops_identifier :: string
  finalize :: "(handle \<Rightarrow> state \<Rightarrow> state) option"
  compare :: "c_function option"
  hash :: "c_function option"
  serialize :: "c_function option"
  deserialize :: "c_function option"

definition custom_finalize_default :: "(handle \<Rightarrow> state \<Rightarrow> state) option" where
  "custom_finalize_default = None"

definition custom_serialize_default :: "c_function option" where
  "custom_serialize_default = None"

definition custom_deserialize_default :: "c_function option" where
  "custom_deserialize_default = None"

definition watcher_ops :: custom_operations where
  "watcher_ops =
     \<lparr>ops_identifier = ''lwt.libev.watcher'',
      finalize = custom_finalize_default,
      compare = Some Compare_watchers,
      hash = Some Hash_watcher,
      serialize = custom_serialize_default,
      deserialize = custom_deserialize_default\<rparr>"

fun operations_at :: "ops_ptr \<Rightarrow> custom_operations" where
  "operations_at Watcher_ops = watcher_ops"

text \<open>
  The collector reclaiming a custom block that the program no longer holds: it calls
  the block's finalisation function, when it has one, and releases the block.
\<close>

definition caml_gc_reclaim :: "handle \<Rightarrow> step" where
  "caml_gc_reclaim h s =
     (case custom_blocks s h of
        None \<Rightarrow> Inr s
      | Some b \<Rightarrow>
          (let s' = (case finalize (operations_at (block_ops b)) of
                       None \<Rightarrow> s
                     | Some f \<Rightarrow> f h s)
           in Inr (s'\<lparr>custom_blocks := (custom_blocks s')(h := None)\<rparr>)))"

subsection \<open>OCaml code calling the stubs\<close>

text \<open>
  What a closure (or the main program) can do to the state of this file: call a stub,
  raise an exception, or drop a handle that the collector then reclaims. Each call
  carries the choices of its environment: whether libev can create the loop, the
  watchers the operating system reports in a round, the address and the block the
  allocators return. \<open>Signal e\<close> is the environment alone: a signal arrives whose
  handler, installed by the program, raises \<open>e\<close>, and the handler has not run yet
  when the program calls the next stub.
\<close>

datatype prim =
    Call_init bool
  | Call_stop
  | Call_loop "addr list"
  | Call_loop_no_wait "addr list"
  | Call_unloop
  | Call_readable_init int callback addr handle
  | Call_writable_init int callback addr handle
  | Call_io_stop handle
  | Call_signal_init int callback addr handle
  | Call_signal_stop handle
  | Call_timer_init ev_tstamp callback addr handle
  | Call_timer_stop handle
  | Raise nat
  | Drop handle
  | Signal caml_exn

definition forget :: "(error \<times> state) + (handle \<times> state) \<Rightarrow> result" where
  "forget r = (case r of Inl e \<Rightarrow> Inl e | Inr (h, s) \<Rightarrow> Inr s)"

fun exec_prim :: "(int \<Rightarrow> int) \<Rightarrow> closure_sem \<Rightarrow> prim \<Rightarrow> step" where
  "exec_prim conv run (Call_init ok) s = lwt_libev_init ok s"
| "exec_prim conv run Call_stop s = lwt_libev_stop s"
| "exec_prim conv run (Call_loop ready) s = lwt_libev_loop run ready s"
| "exec_prim conv run (Call_loop_no_wait ready) s = lwt_libev_loop_no_wait run ready s"
| "exec_prim conv run Call_unloop s = lwt_libev_unloop s"
| "exec_prim conv run (Call_readable_init fd c a h) s = forget (lwt_libev_readable_init fd c a h s)"
| "exec_prim conv run (Call_writable_init fd c a h) s = forget (lwt_libev_writable_init fd c a h s)"
| "exec_prim conv run (Call_io_stop h) s = lwt_libev_io_stop h s"
| "exec_prim conv run (Call_signal_init n c a h) s = forget (lwt_libev_signal_init conv n c a h s)"
| "exec_prim conv run (Call_signal_stop h) s = lwt_libev_signal_stop h s"
| "exec_prim conv run (Call_timer_init d c a h) s = forget (lwt_libev_timer_init d c a h s)"
| "exec_prim conv run (Call_timer_stop h) s = lwt_libev_timer_stop h s"
| "exec_prim conv run (Raise n) s = Inl (Raised (User_exn n), s)"
| "exec_prim conv run (Drop h) s = caml_gc_reclaim h s"
| "exec_prim conv run (Signal e) s = Inr (s\<lparr>signal_exn := Some e\<rparr>)"

definition run_prims :: "(int \<Rightarrow> int) \<Rightarrow> closure_sem \<Rightarrow> prim list \<Rightarrow> step" where
  "run_prims conv run ps = steps (map (exec_prim conv run) ps)"

text \<open>
  A closure is its code, a list of such actions, given by the table \<open>code\<close>. A closure
  can drive the loop itself and so run closures in turn, without bound; \<open>n\<close> bounds the
  depth of that nesting.
\<close>

primrec run_closure :: "(int \<Rightarrow> int) \<Rightarrow> (callback \<Rightarrow> prim list) \<Rightarrow> nat \<Rightarrow> closure_sem" where
  "run_closure conv code 0 = (\<lambda>c s. Inl (Nesting_exhausted, s))"
| "run_closure conv code (Suc n) = (\<lambda>c s. run_prims conv (run_closure conv code n) (code c) s)"

subsection \<open>Notions used in the statements\<close>

text \<open>The entries a step adds to the log.\<close>

definition emitted :: "step \<Rightarrow> state \<Rightarrow> (event \<times> int) list" where
  "emitted f s = drop (length (trace s)) (trace (state_of (f s)))"

text \<open>The log entries with the flag of the moment, for a list of events all made under flag \<open>v\<close>.\<close>

definition stamped :: "int \<Rightarrow> event list \<Rightarrow> (event \<times> int) list" where
  "stamped v es = map (\<lambda>e. (e, v)) es"

text \<open>
  The flag at two moments: it is 1 when \<^verbatim>\<open>ev_loop\<close> is called for a round, and 0
  when a closure is called.
\<close>

fun stamp_ok :: "event \<times> int \<Rightarrow> bool" where
  "stamp_ok (Ev_loop flags, v) = (v = 1)"
| "stamp_ok (Caml_callback c, v) = (v = 0)"
| "stamp_ok (e, v) = True"

text \<open>
  The flag at the third moment, in the words of the spec: "the flag is true immediately
  before the OS wait".
\<close>

fun waits_in_section :: "event \<times> int \<Rightarrow> bool" where
  "waits_in_section (Backend_poll, v) = (v \<noteq> 0)"
| "waits_in_section (e, v) = True"

text \<open>The events queued in the loop, and a call that has returned with none left.\<close>

definition queue :: "state \<Rightarrow> addr list" where
  "queue s = (case lwt_unix_main_loop s of None \<Rightarrow> [] | Some l \<Rightarrow> pendings l)"

definition drained :: "result \<Rightarrow> bool" where
  "drained r = (case r of Inl e \<Rightarrow> True | Inr s \<Rightarrow> queue s = [])"

text \<open>
  The flag is 0 where a call ends, by returning or by an exception. A call that ends in
  undefined behaviour of C does not end in any defined state.
\<close>

fun flag_clear :: "result \<Rightarrow> bool" where
  "flag_clear (Inr s) = (lwt_unix_in_blocking_section s = 0)"
| "flag_clear (Inl (Undefined_behaviour, s)) = True"
| "flag_clear (Inl (e, s)) = (lwt_unix_in_blocking_section s = 0)"

text \<open>Ends that leave no process to go on with; an OCaml exception is not one of them.\<close>

fun process_fatal :: "error \<Rightarrow> bool" where
  "process_fatal Process_abort = True"
| "process_fatal e = False"

text \<open>The state a failed \<^verbatim>\<open>lwt_libev_init\<close> leaves: two more entries in the log.\<close>

definition init_failed :: "state \<Rightarrow> state" where
  "init_failed s =
     s\<lparr>trace := trace s @ stamped (lwt_unix_in_blocking_section s)
         [Ev_default_loop EVFLAG_FORKCHECK,
          Caml_failwith ''lwt_libev_init: could not initialise the default loop'']\<rparr>"

text \<open>
  The order of an init stub and of a stop stub, in the words of the spec: "allocate the
  OS-level descriptor, initialize it with kind-specific parameters, wrap it in an opaque
  handle, pin the callback and store a non-owning link from the descriptor to the pinned
  callback, start the watch against the Loop"; "unpin the callback, stop the watch
  against the Loop, release the descriptor". \<open>ini\<close>, \<open>start\<close> and \<open>stop\<close> are the
  calls of the kind.
\<close>

definition init_order :: "event \<Rightarrow> event \<Rightarrow> addr \<Rightarrow> handle \<Rightarrow> callback \<Rightarrow> event list" where
  "init_order ini start a h c =
     [Lwt_unix_new a, ini,
      Caml_alloc_custom h, Store_custom h a,
      Store_data a c, Caml_register_generational_global_root a,
      start]"

definition stop_order :: "event \<Rightarrow> addr \<Rightarrow> event list" where
  "stop_order stop a = [Caml_remove_generational_global_root a, stop, Free a]"

text \<open>The state an init stub leaves: the started watcher, its handle, its pin.\<close>

definition registered :: "ev_kind \<Rightarrow> handler \<Rightarrow> event list \<Rightarrow> callback \<Rightarrow> addr \<Rightarrow> handle \<Rightarrow> ev_loop_t \<Rightarrow> state \<Rightarrow> state" where
  "registered k tr es c a h l s =
     s\<lparr>lwt_unix_main_loop := Some (l\<lparr>watchers := insert a (watchers l)\<rparr>),
       heap := (heap s)(a \<mapsto> Watcher \<lparr>active = True, cb = tr, data = Some c, kind = k\<rparr>),
       custom_blocks := (custom_blocks s)(h \<mapsto> \<lparr>block_ops = Watcher_ops, block_data = Some a\<rparr>),
       global_roots := insert a (global_roots s),
       trace := trace s @ stamped (lwt_unix_in_blocking_section s) es\<rparr>"

text \<open>
  The state a stop stub leaves: the watcher out of the loop, no event of it queued,
  unpinned, released.
\<close>

definition unregistered :: "event list \<Rightarrow> addr \<Rightarrow> ev_watcher \<Rightarrow> ev_loop_t \<Rightarrow> state \<Rightarrow> state" where
  "unregistered es a w l s =
     s\<lparr>lwt_unix_main_loop :=
         Some (if active w then (clear_pending a l)\<lparr>watchers := watchers l - {a}\<rparr>
               else clear_pending a l),
       heap := (heap s)(a := None),
       global_roots := global_roots s - {a},
       trace := trace s @ stamped (lwt_unix_in_blocking_section s) es\<rparr>"

text \<open>What the descriptor of a started readable or writable watcher holds.\<close>

definition w_read :: "int \<Rightarrow> callback \<Rightarrow> ev_watcher" where
  "w_read fd c = \<lparr>active = True, cb = Handle_io, data = Some c, kind = Ev_io fd EV_READ\<rparr>"

definition w_write :: "int \<Rightarrow> callback \<Rightarrow> ev_watcher" where
  "w_write fd c = \<lparr>active = True, cb = Handle_io, data = Some c, kind = Ev_io fd EV_WRITE\<rparr>"

text \<open>
  A watcher in full: the descriptor at \<open>a\<close> with contents \<open>w\<close>, its pin, the handle
  \<open>h\<close> wrapping it, and its place among the started watchers of the loop.
\<close>

definition watching :: "addr \<Rightarrow> ev_watcher \<Rightarrow> handle \<Rightarrow> state \<Rightarrow> bool" where
  "watching a w h s =
     (heap s a = Some (Watcher w) \<and> a \<in> global_roots s
      \<and> custom_blocks s h = Some \<lparr>block_ops = Watcher_ops, block_data = Some a\<rparr>
      \<and> (case lwt_unix_main_loop s of None \<Rightarrow> False | Some l \<Rightarrow> a \<in> watchers l))"

text \<open>
  The drive calls in the words of the spec: "transition into the Blocking-Section state,
  invoke the multiplexer for exactly one round [...], then transition out of the
  Blocking-Section state before returning"; \<open>mode\<close> is 0 for the round that waits and
  \<^verbatim>\<open>EVLOOP_NONBLOCK\<close> for the one that does not. Of \<open>enter\<close> the spec says that it
  "flips the flag true and performs whatever runtime-specific action is required", in no
  stated order; the order taken here is the one of the code. Of \<open>check_and_leave\<close> it
  says: "if the flag is true, flip it false and reverse the enter action".
\<close>

definition enter :: step where
  "enter = steps [caml_enter_blocking_section, assign_in_blocking_section 1]"

definition check_and_leave :: step where
  "check_and_leave s =
     (if lwt_unix_in_blocking_section s \<noteq> 0
      then steps [assign_in_blocking_section 0, caml_leave_blocking_section] s
      else Inr s)"

definition drive :: "int \<Rightarrow> closure_sem \<Rightarrow> addr list \<Rightarrow> step" where
  "drive mode run ready =
     steps [enter, ev_loop run ready (EVLOOP_ONESHOT OR mode), check_and_leave]"

text \<open>The log of one drive call with that of the other: the flags of the round exchanged.\<close>

definition with_round_flags :: "int \<Rightarrow> state \<Rightarrow> state \<Rightarrow> state" where
  "with_round_flags flags s s' =
     s'\<lparr>trace := (trace s')[Suc (length (trace s)) := (Ev_loop flags, 1)]\<rparr>"

text \<open>The state \<^verbatim>\<open>lwt_libev_unloop\<close> leaves when there is a loop \<open>l\<close>.\<close>

definition unlooped :: "ev_loop_t \<Rightarrow> state \<Rightarrow> state" where
  "unlooped l s =
     s\<lparr>lwt_unix_main_loop := Some (l\<lparr>loop_done := EVUNLOOP_ONE\<rparr>),
       trace := trace s @ [(Ev_unloop EVUNLOOP_ONE, lwt_unix_in_blocking_section s)]\<rparr>"

text \<open>A log with one more entry \<open>x\<close> in front of what was added since \<open>s\<close>.\<close>

definition with_entry :: "event \<times> int \<Rightarrow> state \<Rightarrow> state \<Rightarrow> state" where
  "with_entry x s s' = s'\<lparr>trace := trace s @ x # drop (length (trace s)) (trace s')\<rparr>"

text \<open>A call has returned and left a one-level unloop request in the loop.\<close>

definition request_pending :: "result \<Rightarrow> bool" where
  "request_pending r =
     (case r of
        Inl e \<Rightarrow> False
      | Inr s \<Rightarrow> (case lwt_unix_main_loop s of None \<Rightarrow> False | Some l \<Rightarrow> loop_done l = EVUNLOOP_ONE))"

text \<open>
  What libev has done to an expired timer whose \<^verbatim>\<open>repeat\<close> is zero when it has
  queued its event: the timer is stopped, and the event is last in the queue.
\<close>

definition expired :: "addr \<Rightarrow> ev_watcher \<Rightarrow> ev_loop_t \<Rightarrow> state \<Rightarrow> state" where
  "expired a w l s =
     s\<lparr>lwt_unix_main_loop := Some (l\<lparr>watchers := watchers l - {a}, pendings := pendings l @ [a]\<rparr>),
       heap := (heap s)(a \<mapsto> Watcher (w\<lparr>active := False\<rparr>))\<rparr>"

text \<open>The state in which libev calls the trampoline of the event first in the queue.\<close>

definition served :: "addr \<Rightarrow> addr list \<Rightarrow> ev_loop_t \<Rightarrow> state \<Rightarrow> state" where
  "served a q l s = log (Ev_invoke a) (s\<lparr>lwt_unix_main_loop := Some (l\<lparr>pendings := q\<rparr>)\<rparr>)"

text \<open>The watcher at \<open>a\<close> is not started (or there is no loop).\<close>

definition stopped :: "addr \<Rightarrow> state \<Rightarrow> bool" where
  "stopped a s = (case lwt_unix_main_loop s of None \<Rightarrow> True | Some l \<Rightarrow> a \<notin> watchers l)"

text \<open>No entry of the log is libev calling the trampoline of the watcher at \<open>a\<close>.\<close>

definition never_invoked :: "addr \<Rightarrow> (event \<times> int) list \<Rightarrow> bool" where
  "never_invoked a t = list_all (\<lambda>x. fst x \<noteq> Ev_invoke a) t"

text \<open>
  How often the log has libev calling the trampoline of the watcher at \<open>a\<close>, and how
  many events of that watcher are in the queue, still to be served.
\<close>

definition invocations :: "addr \<Rightarrow> (event \<times> int) list \<Rightarrow> nat" where
  "invocations a t = length (filter (\<lambda>x. fst x = Ev_invoke a) t)"

definition due :: "addr \<Rightarrow> state \<Rightarrow> nat" where
  "due a s = count_list (queue s) a"

text \<open>Actions that make the allocator return the address \<open>a\<close>.\<close>

fun allocates :: "addr \<Rightarrow> prim \<Rightarrow> bool" where
  "allocates a (Call_readable_init fd c a' h) = (a' = a)"
| "allocates a (Call_writable_init fd c a' h) = (a' = a)"
| "allocates a (Call_signal_init n c a' h) = (a' = a)"
| "allocates a (Call_timer_init d c a' h) = (a' = a)"
| "allocates a p = False"

definition no_alloc :: "addr \<Rightarrow> prim \<Rightarrow> bool" where
  "no_alloc a p = (\<not> allocates a p)"

text \<open>Stop calls on a handle of the set \<open>H\<close>.\<close>

fun stops_in :: "handle set \<Rightarrow> prim \<Rightarrow> bool" where
  "stops_in H (Call_io_stop h) = (h \<in> H)"
| "stops_in H (Call_signal_stop h) = (h \<in> H)"
| "stops_in H (Call_timer_stop h) = (h \<in> H)"
| "stops_in H p = False"

definition no_stop :: "handle set \<Rightarrow> prim \<Rightarrow> bool" where
  "no_stop H p = (\<not> stops_in H p)"

text \<open>
  The descriptor at \<open>a\<close> is allocated, its callback is pinned, and only handles of \<open>H\<close>
  point to it.
\<close>

definition points_to :: "addr \<Rightarrow> custom_block option \<Rightarrow> bool" where
  "points_to a b = (case b of None \<Rightarrow> False | Some blk \<Rightarrow> block_data blk = Some a)"

definition kept :: "handle set \<Rightarrow> addr \<Rightarrow> state \<Rightarrow> bool" where
  "kept H a s =
     (heap s a \<noteq> None \<and> a \<in> global_roots s \<and> (\<forall>h. points_to a (custom_blocks s h) \<longrightarrow> h \<in> H))"

subsection \<open>Notions used in the proofs\<close>

text \<open>
  A step is blind to the log when a longer log in front changes nothing but the log. All
  stubs are: the log is only a record of what happened.
\<close>

definition blind :: "step \<Rightarrow> bool" where
  "blind f = (\<forall>t s. f (relog t s) = map_state (relog t) (f s))"

text \<open>What follows in a drive call once libev has been entered for the round.\<close>

definition round_rest :: "closure_sem \<Rightarrow> addr list \<Rightarrow> step" where
  "round_rest run ready =
     steps [set_loop_done EVUNLOOP_CANCEL, call_pending run, backend_poll, queue_events ready,
            call_pending run, ev_loop_leave, LWT_UNIX_CHECK]"

text \<open>
  An entry is quiet when it is neither a round of libev, nor the
  call of a closure, nor libev calling a trampoline; a step is quiet when it leaves the
  flag alone and adds only quiet entries to the log. All stubs but the two drive calls
  are quiet.
\<close>

fun quiet_entry :: "event \<times> int \<Rightarrow> bool" where
  "quiet_entry (Ev_loop flags, v) = False"
| "quiet_entry (Caml_callback c, v) = False"
| "quiet_entry (Ev_invoke a, v) = False"
| "quiet_entry (e, v) = True"

definition quiet :: "step \<Rightarrow> bool" where
  "quiet f =
     (\<forall>s. lwt_unix_in_blocking_section (state_of (f s)) = lwt_unix_in_blocking_section s
          \<and> (\<exists>d. trace (state_of (f s)) = trace s @ d \<and> list_all quiet_entry d))"

fun is_drive :: "prim \<Rightarrow> bool" where
  "is_drive (Call_loop ready) = True"
| "is_drive (Call_loop_no_wait ready) = True"
| "is_drive p = False"

definition stamps_ok :: "state \<Rightarrow> bool" where
  "stamps_ok s = list_all stamp_ok (trace s)"

text \<open>A step that ends in an error other than undefined behaviour ends with the flag at 0.\<close>

fun errors_clear :: "result \<Rightarrow> bool" where
  "errors_clear (Inr s) = True"
| "errors_clear (Inl (e, s)) = flag_clear (Inl (e, s))"

text \<open>
  The watcher at \<open>a\<close> is stopped, and the calls of its trampoline in the log and its
  events in the queue are no more than \<open>N\<close> together.
\<close>

definition at_most :: "addr \<Rightarrow> nat \<Rightarrow> state \<Rightarrow> bool" where
  "at_most a N s = (stopped a s \<and> due a s + invocations a (trace s) \<le> N)"

text \<open>A step that leaves a stopped watcher stopped and queues no event of it.\<close>

definition calm :: "addr \<Rightarrow> step \<Rightarrow> bool" where
  "calm a f =
     (\<forall>s. stopped a s \<longrightarrow> stopped a (state_of (f s)) \<and> due a (state_of (f s)) \<le> due a s)"

text \<open>The queue is no longer than \<open>N\<close>, where a step returns.\<close>

definition within :: "nat \<Rightarrow> result \<Rightarrow> bool" where
  "within N r = (case r of Inl e \<Rightarrow> True | Inr s \<Rightarrow> length (queue s) \<le> N)"

subsection \<open>Sample states and programs\<close>

definition s_null :: state where
  "s_null =
     \<lparr>lwt_unix_main_loop = None, lwt_unix_in_blocking_section = 0, heap = Map.empty,
      custom_blocks = Map.empty, global_roots = {}, caml_blocking = False, signal_exn = None,
      trace = []\<rparr>"

definition l_fresh :: ev_loop_t where
  "l_fresh = \<lparr>loop_flags = EVFLAG_FORKCHECK, watchers = {}, pendings = [], loop_done = EVUNLOOP_CANCEL\<rparr>"

definition s_init :: state where
  "s_init = s_null\<lparr>lwt_unix_main_loop := Some l_fresh\<rparr>"

text \<open>A readable watcher on fd 3, at address 10, with handle 20 and closure 1.\<close>

definition s_watch :: state where
  "s_watch = registered (Ev_io 3 EV_READ) Handle_io [] 1 10 20 l_fresh s_init"

text \<open>The closure that stops this watcher.\<close>

definition stop_self :: "callback \<Rightarrow> prim list" where
  "stop_self c = [Call_io_stop 20]"

text \<open>A timer at address 10 (its delay the double with bit pattern 5), with handle 20 and
  closure 1.\<close>

definition s_timer :: state where
  "s_timer = registered (Ev_timer 5 0) Handle_timer [] 1 10 20 l_fresh s_init"

text \<open>The closures that do nothing.\<close>

definition do_nothing :: "callback \<Rightarrow> prim list" where
  "do_nothing c = []"

text \<open>
  Two readable watchers: the one of \<open>s_watch\<close>, and one on fd 4, at address 11, with
  handle 21 and closure 2.
\<close>

definition s_pair :: state where
  "s_pair = registered (Ev_io 4 EV_READ) Handle_io [] 2 11 21 (l_fresh\<lparr>watchers := {10}\<rparr>) s_watch"

text \<open>Closure 1 raises an exception; the others do nothing.\<close>

definition raise_first :: "callback \<Rightarrow> prim list" where
  "raise_first c = (if c = 1 then [Raise 7] else [])"

text \<open>Closure 1 drives the loop itself; the others do nothing.\<close>

definition nest_first :: "callback \<Rightarrow> prim list" where
  "nest_first c = (if c = 1 then [Call_loop []] else [])"

section \<open>Properties\<close>

subsection \<open>The log is only a record\<close>

lemmas runtime_defs =
  caml_enter_blocking_section_def caml_leave_blocking_section_def caml_failwith_def
  caml_alloc_custom_def caml_register_generational_global_root_def
  caml_remove_generational_global_root_def lwt_unix_new_def free_def

lemmas libev_defs =
  ev_init_def ev_io_init_def ev_signal_init_def ev_timer_init_def ev_start_def ev_stop_def
  ev_io_start_def ev_signal_start_def ev_timer_start_def ev_io_stop_def ev_signal_stop_def
  ev_timer_stop_def ev_loop_destroy_def ev_unloop_def timers_reify_def set_loop_done_def
  ev_loop_leave_def clear_pending_def ev_feed_event_def backend_poll_def

lemmas store_defs = assign_in_blocking_section_def assign_main_loop_def store_custom_def store_data_def

lemma relog_simps [simp]:
  "lwt_unix_main_loop (relog t s) = lwt_unix_main_loop s"
  "lwt_unix_in_blocking_section (relog t s) = lwt_unix_in_blocking_section s"
  "heap (relog t s) = heap s"
  "custom_blocks (relog t s) = custom_blocks s"
  "global_roots (relog t s) = global_roots s"
  "caml_blocking (relog t s) = caml_blocking s"
  "signal_exn (relog t s) = signal_exn s"
  "trace (relog t s) = t @ trace s"
  by (simp_all add: relog_def)

lemma relog_relog [simp]: "relog t (relog u s) = relog (t @ u) s"
  by (simp add: relog_def)

lemma relog_log: "log e (relog t s) = relog t (log e s)"
  by (simp add: relog_def log_def)

lemma relog_upd [simp]:
  "(relog t s)\<lparr>lwt_unix_main_loop := l\<rparr> = relog t (s\<lparr>lwt_unix_main_loop := l\<rparr>)"
  "(relog t s)\<lparr>lwt_unix_in_blocking_section := v\<rparr> = relog t (s\<lparr>lwt_unix_in_blocking_section := v\<rparr>)"
  "(relog t s)\<lparr>heap := hp\<rparr> = relog t (s\<lparr>heap := hp\<rparr>)"
  "(relog t s)\<lparr>custom_blocks := b\<rparr> = relog t (s\<lparr>custom_blocks := b\<rparr>)"
  "(relog t s)\<lparr>global_roots := g\<rparr> = relog t (s\<lparr>global_roots := g\<rparr>)"
  "(relog t s)\<lparr>caml_blocking := c\<rparr> = relog t (s\<lparr>caml_blocking := c\<rparr>)"
  "(relog t s)\<lparr>signal_exn := x\<rparr> = relog t (s\<lparr>signal_exn := x\<rparr>)"
  by (simp_all add: relog_def)

lemma map_state_simps [simp]:
  "map_state f (Inl (e, s)) = Inl (e, f s)"
  "map_state f (Inr s) = Inr (f s)"
  by (simp_all add: map_state_def)

lemma map_state_comp: "map_state f (map_state g r) = map_state (\<lambda>s. f (g s)) r"
  by (cases r) (auto simp: map_state_def)

lemma blindI: "(\<And>t s. f (relog t s) = map_state (relog t) (f s)) \<Longrightarrow> blind f"
  by (simp add: blind_def)

lemma blindD: "blind f \<Longrightarrow> f (relog t s) = map_state (relog t) (f s)"
  by (simp add: blind_def)

lemma blind_basic:
  "blind caml_enter_blocking_section"
  "blind caml_leave_blocking_section"
  "blind (caml_failwith msg)"
  "blind (caml_alloc_custom ops h)"
  "blind (caml_register_generational_global_root a)"
  "blind (caml_remove_generational_global_root a)"
  "blind (lwt_unix_new a)"
  "blind (free a)"
  "blind (assign_in_blocking_section v)"
  "blind (assign_main_loop p)"
  "blind (store_custom h a)"
  "blind (store_data a c)"
  "blind (\<lambda>s. Inr (log e s))"
  "blind (\<lambda>s. Inr (s\<lparr>lwt_unix_main_loop := None\<rparr>))"
  "blind (\<lambda>s. Inr (s\<lparr>signal_exn := x\<rparr>))"
  by (rule blindI; simp add: runtime_defs store_defs relog_log split: option.splits cell.splits)+

lemma blind_libev:
  "blind (ev_init e a h k)"
  "blind (ev_start e p a)"
  "blind (ev_stop e p a)"
  "blind ev_loop_destroy"
  "blind (ev_unloop how)"
  "blind (timers_reify a)"
  "blind (set_loop_done how)"
  "blind ev_loop_leave"
  "blind (ev_feed_event a)"
  "blind backend_poll"
  by (rule blindI; simp add: libev_defs relog_log split: option.splits cell.splits ev_kind.splits)+

lemma blind_steps: "list_all blind fs \<Longrightarrow> blind (steps fs)"
proof (induction fs)
  case Nil
  show ?case by (rule blindI) simp
next
  case (Cons f fs)
  then have f: "blind f" and fs: "blind (steps fs)" by simp_all
  show ?case
  proof (rule blindI)
    fix t s
    show "steps (f # fs) (relog t s) = map_state (relog t) (steps (f # fs) s)"
      by (cases "f s") (auto simp: blindD [OF f] blindD [OF fs])
  qed
qed

lemma trace_reset [simp]:
  "(relog t s)\<lparr>trace := u\<rparr> = s\<lparr>trace := u\<rparr>"
  "(log e s)\<lparr>trace := u\<rparr> = s\<lparr>trace := u\<rparr>"
  by (simp_all add: relog_def log_def)

lemma log_simps [simp]:
  "lwt_unix_main_loop (log e s) = lwt_unix_main_loop s"
  "lwt_unix_in_blocking_section (log e s) = lwt_unix_in_blocking_section s"
  "heap (log e s) = heap s"
  "custom_blocks (log e s) = custom_blocks s"
  "global_roots (log e s) = global_roots s"
  "caml_blocking (log e s) = caml_blocking s"
  "signal_exn (log e s) = signal_exn s"
  "trace (log e s) = trace s @ [(e, lwt_unix_in_blocking_section s)]"
  by (simp_all add: log_def)

lemma blind_caml_callback: "blind (caml_callback run c)"
  by (rule blindI) (simp add: caml_callback_def Let_def relog_log map_state_comp)

lemma blind_callback_of: "blind (callback_of a run)"
  by (rule blindI) (simp add: callback_of_def blindD [OF blind_caml_callback] split: option.splits cell.splits)

lemma blind_CHECK: "blind LWT_UNIX_CHECK"
proof (rule blindI)
  fix t s
  have "blind (steps [assign_in_blocking_section 0, caml_leave_blocking_section])"
    by (rule blind_steps) (simp add: blind_basic)
  from blindD [OF this] show "LWT_UNIX_CHECK (relog t s) = map_state (relog t) (LWT_UNIX_CHECK s)"
    by (simp add: LWT_UNIX_CHECK_def)
qed

lemma blind_call_handler: "blind (call_handler h run a)"
  by (cases h) (simp_all add: handle_io_def handle_signal_def handle_timer_def blind_steps blind_CHECK blind_callback_of)

lemma blind_ev_invoke: "blind (ev_invoke run a)"
  by (rule blindI)
     (simp add: ev_invoke_def relog_log blindD [OF blind_call_handler] split: option.splits cell.splits)

lemma blind_queue_events: "blind (queue_events ready)"
proof (induction ready)
  case Nil
  show ?case by (rule blindI) simp
next
  case (Cons a ready)
  have "blind (steps [timers_reify a, ev_feed_event a, queue_events ready])"
    by (rule blind_steps) (simp add: blind_libev Cons)
  from blindD [OF this] blindD [OF Cons] show ?case
    by (intro blindI) (simp split: option.splits)
qed

lemma blind_call_pending_upto: "blind (call_pending_upto k run)"
proof (induction k)
  case 0
  show ?case by (rule blindI) simp
next
  case (Suc k)
  have "blind (steps [ev_invoke run a, call_pending_upto k run])" for a
    by (rule blind_steps) (simp add: blind_ev_invoke Suc)
  from blindD [OF this] show ?case
    by (intro blindI) (simp split: option.splits list.splits)
qed

lemma blind_call_pending: "blind (call_pending run)"
  by (rule blindI) (simp add: call_pending_def blindD [OF blind_call_pending_upto] split: option.splits)

lemma blind_ev_loop: "blind (ev_loop run ready flags)"
  unfolding ev_loop_def
  by (rule blind_steps) (simp add: blind_basic blind_libev blind_queue_events blind_call_pending)

lemma blind_lwt_libev_loop: "blind (lwt_libev_loop run ready)" "blind (lwt_libev_loop_no_wait run ready)"
  unfolding lwt_libev_loop_def lwt_libev_loop_no_wait_def
  by (rule blind_steps, simp add: blind_basic blind_ev_loop blind_CHECK)+

lemma blind_with_watcher: "(\<And>a. blind (f a)) \<Longrightarrow> blind (with_watcher h f)"
  by (rule blindI) (simp add: with_watcher_def blindD split: option.splits)

lemma blind_stops:
  "blind (lwt_libev_io_stop h)" "blind (lwt_libev_signal_stop h)" "blind (lwt_libev_timer_stop h)"
  unfolding lwt_libev_io_stop_def lwt_libev_signal_stop_def lwt_libev_timer_stop_def
  by (rule blind_with_watcher, rule blind_steps,
      simp add: blind_basic blind_libev ev_io_stop_def ev_signal_stop_def ev_timer_stop_def)+

lemma forget_returning [simp]: "forget (returning h r) = r"
  by (cases r) (auto simp: forget_def returning_def)

lemma blind_inits:
  "blind (\<lambda>s. forget (lwt_libev_io_init fd ev c a h s))"
  "blind (\<lambda>s. forget (lwt_libev_signal_init conv n c a h s))"
  "blind (\<lambda>s. forget (lwt_libev_timer_init d c a h s))"
  unfolding lwt_libev_io_init_def lwt_libev_signal_init_def lwt_libev_timer_init_def forget_returning
  by (rule blind_steps,
      simp add: blind_basic blind_libev ev_io_init_def ev_signal_init_def ev_timer_init_def
        ev_io_start_def ev_signal_start_def ev_timer_start_def)+

lemma blind_init_stop: "blind (lwt_libev_init ok)" "blind lwt_libev_stop" "blind lwt_libev_unloop"
proof -
  have "blind (steps [assign_main_loop (ev_default_loop EVFLAG_FORKCHECK ok),
               \<lambda>s. if lwt_unix_main_loop s = None
                    then caml_failwith ''lwt_libev_init: could not initialise the default loop'' s
                    else Inr s])"
    by (rule blind_steps) (simp add: blind_basic, rule blindI, simp add: blindD [OF blind_basic(3)])
  from blindD [OF this] show "blind (lwt_libev_init ok)"
    by (intro blindI) (simp add: lwt_libev_init_def)
  have "blind (steps [ev_loop_destroy, \<lambda>s. Inr (s\<lparr>lwt_unix_main_loop := None\<rparr>)])"
    by (rule blind_steps) (simp add: blind_basic blind_libev)
  from blindD [OF this] show "blind lwt_libev_stop"
    by (intro blindI) (simp add: lwt_libev_stop_def)
  show "blind lwt_libev_unloop"
    by (simp add: lwt_libev_unloop_def blind_libev)
qed

lemma finalize_operations_at [simp]: "finalize (operations_at p) = None"
  by (cases p) (simp add: watcher_ops_def custom_finalize_default_def)

lemma blind_gc: "blind (caml_gc_reclaim h)"
  by (rule blindI) (simp add: caml_gc_reclaim_def split: option.splits)

lemma blind_exec_prim: "blind (exec_prim conv run p)"
proof (rule blindI)
  fix t s
  show "exec_prim conv run p (relog t s) = map_state (relog t) (exec_prim conv run p s)"
    by (cases p)
       (simp_all add: blind_init_stop [THEN blindD] blind_lwt_libev_loop [THEN blindD]
          blind_stops [THEN blindD] blind_gc [THEN blindD] blind_inits [THEN blindD]
          blind_basic(15) [THEN blindD]
          lwt_libev_readable_init_def lwt_libev_writable_init_def)
qed

lemma blind_run_prims: "blind (run_prims conv run ps)"
  unfolding run_prims_def by (rule blind_steps) (simp add: list_all_iff blind_exec_prim)

subsection \<open>A drive call, taken apart\<close>

text \<open>
  A drive call either ends in \<^verbatim>\<open>caml_enter_blocking_section\<close>, by the exception of
  a signal handler, or it enters the blocking section and libev; from there both drive
  calls go on in the same way, and what they have logged up to there can be put in front
  afterwards.
\<close>

lemma steps_nested: "steps (steps fs # gs) s = steps (fs @ gs) s"
  by (induction fs arbitrary: s) (auto split: sum.splits)

lemma steps_append:
  "steps (fs @ gs) s = (case steps fs s of Inl e \<Rightarrow> Inl e | Inr s' \<Rightarrow> steps gs s')"
  by (induction fs arbitrary: s) (auto split: sum.splits)

lemma relog_fun: "relog t = (\<lambda>s. s\<lparr>trace := t @ trace s\<rparr>)"
  by (rule ext) (simp add: relog_def)

lemma blind_round_rest: "blind (round_rest run ready)"
  unfolding round_rest_def
  by (rule blind_steps)
     (simp add: blind_libev blind_queue_events blind_call_pending blind_CHECK)

lemma drive_raises:
  assumes "signal_exn s = Some e"
  shows "steps [caml_enter_blocking_section, assign_in_blocking_section 1,
                ev_loop run ready flags, LWT_UNIX_CHECK] s =
         Inl (Raised e, (log Caml_enter_blocking_section s)\<lparr>signal_exn := None\<rparr>)"
  using assms by (simp add: caml_enter_blocking_section_def)

lemma drive_enters:
  assumes "signal_exn s = None"
  shows "steps [caml_enter_blocking_section, assign_in_blocking_section 1,
          ev_loop run ready flags, LWT_UNIX_CHECK] s =
     map_state (relog (trace s @ [(Caml_enter_blocking_section, lwt_unix_in_blocking_section s),
                                   (Ev_loop flags, 1)]))
       (round_rest run ready
          (s\<lparr>lwt_unix_in_blocking_section := 1, caml_blocking := True, trace := []\<rparr>))"
proof -
  let ?s2 = "s\<lparr>lwt_unix_in_blocking_section := 1, caml_blocking := True, trace := []\<rparr>"
  let ?t = "trace s @ [(Caml_enter_blocking_section, lwt_unix_in_blocking_section s), (Ev_loop flags, 1)]"
  let ?s1 = "(log Caml_enter_blocking_section s)\<lparr>caml_blocking := True, lwt_unix_in_blocking_section := 1\<rparr>"
  have "steps [caml_enter_blocking_section, assign_in_blocking_section 1,
          ev_loop run ready flags, LWT_UNIX_CHECK] s =
        steps (steps [\<lambda>s. Inr (log (Ev_loop flags) s), set_loop_done EVUNLOOP_CANCEL,
                 call_pending run, backend_poll, queue_events ready, call_pending run,
                 ev_loop_leave] # [LWT_UNIX_CHECK]) ?s1"
    using assms
    by (simp add: caml_enter_blocking_section_def assign_in_blocking_section_def ev_loop_def)
  also have "\<dots> = round_rest run ready (log (Ev_loop flags) ?s1)"
    unfolding steps_nested round_rest_def by simp
  also have "log (Ev_loop flags) ?s1 = relog ?t ?s2"
    by (simp add: log_def relog_def)
  finally show ?thesis
    by (simp add: blindD [OF blind_round_rest])
qed

lemma drive_decompose:
  "steps [caml_enter_blocking_section, assign_in_blocking_section 1,
          ev_loop run ready flags, LWT_UNIX_CHECK] s =
     (case signal_exn s of
        Some e \<Rightarrow> Inl (Raised e, (log Caml_enter_blocking_section s)\<lparr>signal_exn := None\<rparr>)
      | None \<Rightarrow>
          map_state (relog (trace s @ [(Caml_enter_blocking_section, lwt_unix_in_blocking_section s),
                                        (Ev_loop flags, 1)]))
            (round_rest run ready
               (s\<lparr>lwt_unix_in_blocking_section := 1, caml_blocking := True, trace := []\<rparr>)))"
  by (cases "signal_exn s") (simp_all only: drive_raises drive_enters option.case)

lemma set_loop_done_overwrites:
  "set_loop_done d (s\<lparr>lwt_unix_main_loop := Some (l\<lparr>loop_done := x\<rparr>)\<rparr>) =
   set_loop_done d (s\<lparr>lwt_unix_main_loop := Some l\<rparr>)"
  by (simp add: set_loop_done_def)

lemma round_rest_overwrites:
  "round_rest run ready (s\<lparr>lwt_unix_main_loop := Some (l\<lparr>loop_done := x\<rparr>)\<rparr>) =
   round_rest run ready (s\<lparr>lwt_unix_main_loop := Some l\<rparr>)"
  by (simp add: round_rest_def set_loop_done_overwrites)

lemma drive_after_unloop:
  assumes "lwt_unix_main_loop s = Some l" "signal_exn s = None"
  shows "steps [caml_enter_blocking_section, assign_in_blocking_section 1,
                ev_loop run ready fl, LWT_UNIX_CHECK] (unlooped l s) =
         map_state (with_entry (Ev_unloop EVUNLOOP_ONE, lwt_unix_in_blocking_section s) s)
           (steps [caml_enter_blocking_section, assign_in_blocking_section 1,
                   ev_loop run ready fl, LWT_UNIX_CHECK] s)"
proof -
  let ?s2 = "s\<lparr>lwt_unix_in_blocking_section := 1, caml_blocking := True, trace := []\<rparr>"
  have 0: "signal_exn (unlooped l s) = None"
    using assms(2) by (simp add: unlooped_def)
  have 1: "(unlooped l s)\<lparr>lwt_unix_in_blocking_section := 1, caml_blocking := True, trace := []\<rparr> =
           ?s2\<lparr>lwt_unix_main_loop := Some (l\<lparr>loop_done := EVUNLOOP_ONE\<rparr>)\<rparr>"
    by (simp add: unlooped_def)
  have 2: "?s2\<lparr>lwt_unix_main_loop := Some l\<rparr> = ?s2"
    using assms(1) by simp
  have 3: "round_rest run ready (?s2\<lparr>lwt_unix_main_loop := Some (l\<lparr>loop_done := EVUNLOOP_ONE\<rparr>)\<rparr>) =
           round_rest run ready ?s2"
    using round_rest_overwrites [where s = ?s2 and l = l and x = EVUNLOOP_ONE and run = run and ready = ready]
    unfolding 2 .
  show ?thesis
    unfolding drive_enters [OF 0] drive_enters [OF assms(2)] 1 3
    by (simp add: map_state_comp unlooped_def with_entry_def relog_fun)
qed

subsection \<open>The init and stop stubs in closed form\<close>

lemmas init_defs =
  lwt_libev_io_init_def lwt_libev_signal_init_def lwt_libev_timer_init_def
  lwt_libev_readable_init_def lwt_libev_writable_init_def returning_def
  lwt_unix_new_def ev_io_init_def ev_signal_init_def ev_timer_init_def ev_init_def
  caml_alloc_custom_def store_custom_def store_data_def
  caml_register_generational_global_root_def
  ev_io_start_def ev_signal_start_def ev_timer_start_def ev_start_def
  registered_def init_order_def stamped_def

lemmas stop_defs =
  lwt_libev_io_stop_def lwt_libev_signal_stop_def lwt_libev_timer_stop_def with_watcher_def
  caml_remove_generational_global_root_def
  ev_io_stop_def ev_signal_stop_def ev_timer_stop_def ev_stop_def free_def
  unregistered_def stop_order_def stamped_def clear_pending_def

lemma io_init_eq:
  assumes "lwt_unix_main_loop s = Some l" "heap s a = None" "custom_blocks s h = None"
  shows "lwt_libev_io_init fd ev c a h s =
           Inr (h, registered (Ev_io fd ev) Handle_io
                     (init_order (Ev_io_init a Handle_io fd ev) (Ev_io_start a) a h c) c a h l s)"
  using assms by (simp add: init_defs domIff)

lemma signal_init_eq:
  assumes "lwt_unix_main_loop s = Some l" "heap s a = None" "custom_blocks s h = None"
  shows "lwt_libev_signal_init conv n c a h s =
           Inr (h, registered (Ev_signal (conv n)) Handle_signal
                     (init_order (Ev_signal_init a Handle_signal (conv n)) (Ev_signal_start a) a h c) c a h l s)"
  using assms by (simp add: init_defs domIff)

lemma timer_init_eq:
  assumes "lwt_unix_main_loop s = Some l" "heap s a = None" "custom_blocks s h = None"
  shows "lwt_libev_timer_init d c a h s =
           Inr (h, registered (Ev_timer d 0) Handle_timer
                     (init_order (Ev_timer_init a Handle_timer d 0) (Ev_timer_start a) a h c) c a h l s)"
  using assms by (simp add: init_defs domIff)

lemma io_stop_eq:
  assumes "lwt_unix_main_loop s = Some l" "custom_blocks s h = Some b" "block_data b = Some a"
    "heap s a = Some (Watcher w)" "is_io (kind w)"
  shows "lwt_libev_io_stop h s = Inr (unregistered (stop_order (Ev_io_stop a) a) a w l s)"
  using assms by (simp add: stop_defs)

lemma signal_stop_eq:
  assumes "lwt_unix_main_loop s = Some l" "custom_blocks s h = Some b" "block_data b = Some a"
    "heap s a = Some (Watcher w)" "is_signal (kind w)"
  shows "lwt_libev_signal_stop h s = Inr (unregistered (stop_order (Ev_signal_stop a) a) a w l s)"
  using assms by (simp add: stop_defs)

lemma timer_stop_eq:
  assumes "lwt_unix_main_loop s = Some l" "custom_blocks s h = Some b" "block_data b = Some a"
    "heap s a = Some (Watcher w)" "is_timer (kind w)"
  shows "lwt_libev_timer_stop h s = Inr (unregistered (stop_order (Ev_timer_stop a) a) a w l s)"
  using assms by (simp add: stop_defs)

subsection \<open>No unloop request outlives a round\<close>

lemma not_pending_drive:
  "\<not> request_pending (steps [caml_enter_blocking_section, assign_in_blocking_section 1,
          ev_loop run ready flags, LWT_UNIX_CHECK] s)"
proof -
  have leave: "ev_loop_leave s1 = Inr s2 \<Longrightarrow> LWT_UNIX_CHECK s2 = Inr s3 \<Longrightarrow>
      lwt_unix_main_loop s3 = Some l' \<Longrightarrow> loop_done l' = EVUNLOOP_ONE \<Longrightarrow> False" for s1 s2 s3 l'
    by (auto simp: ev_loop_leave_def set_loop_done_def LWT_UNIX_CHECK_def
          assign_in_blocking_section_def caml_leave_blocking_section_def EVUNLOOP_ONE_def EVUNLOOP_CANCEL_def
          split: option.splits if_splits)
  let ?fs = "[set_loop_done EVUNLOOP_CANCEL, call_pending run, backend_poll, queue_events ready,
              call_pending run]"
  have "round_rest run ready s0 = steps (?fs @ [ev_loop_leave, LWT_UNIX_CHECK]) s0" for s0
    by (simp add: round_rest_def)
  then have rest: "round_rest run ready s0 = Inr s3 \<Longrightarrow>
      lwt_unix_main_loop s3 = Some l' \<Longrightarrow> loop_done l' = EVUNLOOP_ONE \<Longrightarrow> False" for s0 s3 l'
    unfolding steps_append
    by (cases "steps ?fs s0") (auto split: sum.splits dest: leave)
  show ?thesis
    unfolding drive_decompose
    by (auto simp: request_pending_def map_state_def split: sum.splits option.splits prod.splits
          dest: rest)
qed

subsection \<open>Invariants of programs\<close>

text \<open>
  What holds before and after every action, given that it holds before and after every
  closure, holds for closures nested to any depth and for programs.
\<close>

lemma state_of_simps [simp]:
  "state_of (Inl (e, s)) = s" "state_of (Inr s) = s"
  by (simp_all add: state_of_def)

lemma state_of_map_state [simp]: "state_of (map_state f r) = f (state_of r)"
  by (cases r) auto

lemma steps_rule:
  assumes f: "\<And>f s. f \<in> set fs \<Longrightarrow> P s \<Longrightarrow> Q (f s)"
    and ret: "\<And>s. P s \<Longrightarrow> Q (Inr s)"
    and cont: "\<And>s. Q (Inr s) \<Longrightarrow> P s"
  shows "P s \<Longrightarrow> Q (steps fs s)"
  using f
proof (induction fs arbitrary: s)
  case Nil
  then show ?case by (simp add: ret)
next
  case (Cons g gs)
  have g: "Q (g s)" using Cons.prems by simp
  show ?case
  proof (cases "g s")
    case (Inl e)
    with g show ?thesis by simp
  next
    case (Inr s')
    with g have "P s'" by (simp add: cont)
    then have "Q (steps gs s')" using Cons.prems(2) by (intro Cons.IH) simp_all
    with Inr show ?thesis by simp
  qed
qed

lemma run_prims_rule:
  assumes prim: "\<And>p s. p \<in> set ps \<Longrightarrow> P s \<Longrightarrow> Q (exec_prim conv run p s)"
    and ret: "\<And>s. P s \<Longrightarrow> Q (Inr s)"
    and cont: "\<And>s. Q (Inr s) \<Longrightarrow> P s"
  shows "P s \<Longrightarrow> Q (run_prims conv run ps s)"
  unfolding run_prims_def
  by (rule steps_rule [where P = P]) (auto simp: ret cont prim)

lemma run_closure_rule:
  assumes prim: "\<And>run p s. A p \<Longrightarrow> (\<And>c s. P s \<Longrightarrow> Q (run c s)) \<Longrightarrow> P s \<Longrightarrow> Q (exec_prim conv run p s)"
    and ret: "\<And>s. P s \<Longrightarrow> Q (Inr s)"
    and cont: "\<And>s. Q (Inr s) \<Longrightarrow> P s"
    and exhausted: "\<And>s. P s \<Longrightarrow> Q (Inl (Nesting_exhausted, s))"
    and code: "\<And>c. list_all A (code c)"
  shows "P s \<Longrightarrow> Q (run_closure conv code n c s)"
proof (induction n arbitrary: c s)
  case 0
  then show ?case by (simp add: exhausted)
next
  case (Suc n)
  have "Q (run_prims conv (run_closure conv code n) (code c) s)"
  proof (rule run_prims_rule [where P = P])
    fix p s
    assume "p \<in> set (code c)" and s: "P s"
    then have "A p" using code [of c] by (simp add: list_all_iff)
    then show "Q (exec_prim conv (run_closure conv code n) p s)"
      using s by (intro prim) (simp_all add: Suc.IH)
  qed (simp_all add: ret cont Suc.prems)
  then show ?case by simp
qed

lemma program_rule:
  assumes prim: "\<And>run p s. A p \<Longrightarrow> (\<And>c s. P s \<Longrightarrow> Q (run c s)) \<Longrightarrow> P s \<Longrightarrow> Q (exec_prim conv run p s)"
    and ret: "\<And>s. P s \<Longrightarrow> Q (Inr s)"
    and cont: "\<And>s. Q (Inr s) \<Longrightarrow> P s"
    and exhausted: "\<And>s. P s \<Longrightarrow> Q (Inl (Nesting_exhausted, s))"
    and code: "\<And>c. list_all A (code c)"
    and ps: "list_all A ps"
  shows "P s \<Longrightarrow> Q (run_prims conv (run_closure conv code n) ps s)"
proof (rule run_prims_rule [where P = P])
  fix p s
  assume "p \<in> set ps" and s: "P s"
  then have "A p" using ps by (simp add: list_all_iff)
  then show "Q (exec_prim conv (run_closure conv code n) p s)"
    using s
    by (intro prim) (simp_all add: run_closure_rule [where P = P and Q = Q and A = A, OF prim ret cont exhausted code])
qed (simp_all add: ret cont)

text \<open>
  The same for an invariant that carries a bound, when a closure is called under another
  bound than the one of its caller.
\<close>

lemma run_closure_rule_bound:
  assumes prim: "\<And>run p s N. A p \<Longrightarrow> (\<And>c s N. P N s \<Longrightarrow> Q N (run c s)) \<Longrightarrow> P N s
                   \<Longrightarrow> Q N (exec_prim conv run p s)"
    and ret: "\<And>s N. P N s \<Longrightarrow> Q N (Inr s)"
    and cont: "\<And>s N. Q N (Inr s) \<Longrightarrow> P N s"
    and exhausted: "\<And>s N. P N s \<Longrightarrow> Q N (Inl (Nesting_exhausted, s))"
    and code: "\<And>c. list_all A (code c)"
  shows "P N s \<Longrightarrow> Q N (run_closure conv code n c s)"
proof (induction n arbitrary: c s N)
  case 0
  then show ?case by (simp add: exhausted)
next
  case (Suc n)
  have "Q N (run_prims conv (run_closure conv code n) (code c) s)"
  proof (rule run_prims_rule [where P = "P N"])
    fix p s
    assume "p \<in> set (code c)" and s: "P N s"
    then have "A p" using code [of c] by (simp add: list_all_iff)
    then show "Q N (exec_prim conv (run_closure conv code n) p s)"
      using s by (intro prim) (simp_all add: Suc.IH)
  qed (simp_all add: ret cont Suc.prems)
  then show ?case by simp
qed

lemma program_rule_bound:
  assumes prim: "\<And>run p s N. A p \<Longrightarrow> (\<And>c s N. P N s \<Longrightarrow> Q N (run c s)) \<Longrightarrow> P N s
                   \<Longrightarrow> Q N (exec_prim conv run p s)"
    and ret: "\<And>s N. P N s \<Longrightarrow> Q N (Inr s)"
    and cont: "\<And>s N. Q N (Inr s) \<Longrightarrow> P N s"
    and exhausted: "\<And>s N. P N s \<Longrightarrow> Q N (Inl (Nesting_exhausted, s))"
    and code: "\<And>c. list_all A (code c)"
    and ps: "list_all A ps"
  shows "P N s \<Longrightarrow> Q N (run_prims conv (run_closure conv code n) ps s)"
proof (rule run_prims_rule [where P = "P N"])
  fix p s
  assume "p \<in> set ps" and s: "P N s"
  then have "A p" using ps by (simp add: list_all_iff)
  then show "Q N (exec_prim conv (run_closure conv code n) p s)"
    using s
    by (intro prim)
       (simp_all add: run_closure_rule_bound [where P = P and Q = Q and A = A, OF prim ret cont exhausted code])
qed (simp_all add: ret cont)

subsection \<open>Quiet steps\<close>

lemma quietI:
  "(\<And>s. lwt_unix_in_blocking_section (state_of (f s)) = lwt_unix_in_blocking_section s
        \<and> (\<exists>d. trace (state_of (f s)) = trace s @ d \<and> list_all quiet_entry d)) \<Longrightarrow> quiet f"
  by (simp add: quiet_def)

lemma quiet_flag: "quiet f \<Longrightarrow> lwt_unix_in_blocking_section (state_of (f s)) = lwt_unix_in_blocking_section s"
  by (simp add: quiet_def)

lemma quiet_trace: "quiet f \<Longrightarrow> \<exists>d. trace (state_of (f s)) = trace s @ d \<and> list_all quiet_entry d"
  by (simp add: quiet_def)

lemma quiet_basic:
  "quiet caml_leave_blocking_section"
  "quiet (caml_failwith msg)"
  "quiet (caml_alloc_custom ops h)"
  "quiet (caml_register_generational_global_root a)"
  "quiet (caml_remove_generational_global_root a)"
  "quiet (lwt_unix_new a)"
  "quiet (free a)"
  "quiet (assign_main_loop p)"
  "quiet (store_custom h a)"
  "quiet (store_data a c)"
  "quiet (\<lambda>s. Inr (s\<lparr>lwt_unix_main_loop := None\<rparr>))"
  "quiet (caml_gc_reclaim h)"
  "quiet (\<lambda>s. Inl (e, s))"
  "quiet (\<lambda>s. Inr (s\<lparr>signal_exn := x\<rparr>))"
  by (rule quietI; simp add: runtime_defs store_defs caml_gc_reclaim_def split: option.splits cell.splits)+

lemma quiet_libev:
  "quiet (ev_io_init a tr fd events)"
  "quiet (ev_signal_init a tr signum)"
  "quiet (ev_timer_init a tr after repeat)"
  "quiet (ev_io_start a)" "quiet (ev_signal_start a)" "quiet (ev_timer_start a)"
  "quiet (ev_io_stop a)" "quiet (ev_signal_stop a)" "quiet (ev_timer_stop a)"
  "quiet ev_loop_destroy"
  "quiet (ev_unloop how)"
  "quiet (timers_reify a)"
  "quiet (set_loop_done how)"
  "quiet ev_loop_leave"
  "quiet (ev_feed_event a)"
  "quiet backend_poll"
  by (rule quietI; simp add: libev_defs split: option.splits cell.splits ev_kind.splits)+

lemma quiet_steps: "list_all quiet fs \<Longrightarrow> quiet (steps fs)"
proof (induction fs)
  case Nil
  show ?case by (rule quietI) simp
next
  case (Cons f fs)
  then have f: "quiet f" and fs: "quiet (steps fs)" by simp_all
  show ?case
  proof (rule quietI)
    fix s
    show "lwt_unix_in_blocking_section (state_of (steps (f # fs) s)) = lwt_unix_in_blocking_section s
        \<and> (\<exists>d. trace (state_of (steps (f # fs) s)) = trace s @ d \<and> list_all quiet_entry d)"
    proof (cases "f s")
      case (Inl e)
      with quiet_flag [OF f, of s] quiet_trace [OF f, of s] show ?thesis by simp
    next
      case (Inr s')
      from quiet_trace [OF f, of s] Inr obtain d where d: "trace s' = trace s @ d" "list_all quiet_entry d"
        by auto
      from quiet_trace [OF fs, of s'] obtain d' where
        d': "trace (state_of (steps fs s')) = trace s' @ d'" "list_all quiet_entry d'"
        by auto
      from d d' have "trace (state_of (steps fs s')) = trace s @ (d @ d') \<and> list_all quiet_entry (d @ d')"
        by simp
      then have "\<exists>d. trace (state_of (steps fs s')) = trace s @ d \<and> list_all quiet_entry d"
        by blast
      with quiet_flag [OF f, of s] quiet_flag [OF fs, of s'] Inr show ?thesis by simp
    qed
  qed
qed

lemma quiet_queue_events: "quiet (queue_events ready)"
proof (induction ready)
  case Nil
  show ?case by (rule quietI) simp
next
  case (Cons a ready)
  have "quiet (steps [timers_reify a, ev_feed_event a, queue_events ready])"
    by (rule quiet_steps) (simp add: quiet_libev Cons)
  from quiet_flag [OF this] quiet_trace [OF this] quiet_flag [OF Cons] quiet_trace [OF Cons]
  show ?case
    by (intro quietI) (simp split: option.splits)
qed

lemma quiet_with_watcher: "(\<And>a. quiet (f a)) \<Longrightarrow> quiet (with_watcher h f)"
  by (rule quietI) (simp add: with_watcher_def quiet_flag quiet_trace split: option.splits)

lemma quiet_stops:
  "quiet (lwt_libev_io_stop h)" "quiet (lwt_libev_signal_stop h)" "quiet (lwt_libev_timer_stop h)"
  unfolding lwt_libev_io_stop_def lwt_libev_signal_stop_def lwt_libev_timer_stop_def
  by (rule quiet_with_watcher, rule quiet_steps, simp add: quiet_basic quiet_libev)+

lemma quiet_inits:
  "quiet (\<lambda>s. forget (lwt_libev_io_init fd ev c a h s))"
  "quiet (\<lambda>s. forget (lwt_libev_signal_init conv n c a h s))"
  "quiet (\<lambda>s. forget (lwt_libev_timer_init d c a h s))"
  unfolding lwt_libev_io_init_def lwt_libev_signal_init_def lwt_libev_timer_init_def forget_returning
  by (rule quiet_steps, simp add: quiet_basic quiet_libev)+

lemma quiet_init_stop: "quiet (lwt_libev_init ok)" "quiet lwt_libev_stop" "quiet lwt_libev_unloop"
proof -
  have "quiet (\<lambda>s. if lwt_unix_main_loop s = None
                    then caml_failwith ''lwt_libev_init: could not initialise the default loop'' s
                    else Inr s)"
    by (rule quietI) (simp add: caml_failwith_def)
  then have "quiet (steps [assign_main_loop (ev_default_loop EVFLAG_FORKCHECK ok),
               \<lambda>s. if lwt_unix_main_loop s = None
                    then caml_failwith ''lwt_libev_init: could not initialise the default loop'' s
                    else Inr s])"
    by (intro quiet_steps) (simp add: quiet_basic)
  from quiet_flag [OF this] quiet_trace [OF this] show "quiet (lwt_libev_init ok)"
    by (intro quietI) (simp add: lwt_libev_init_def)
  have "quiet (steps [ev_loop_destroy, \<lambda>s. Inr (s\<lparr>lwt_unix_main_loop := None\<rparr>)])"
    by (rule quiet_steps) (simp add: quiet_basic quiet_libev)
  from quiet_flag [OF this] quiet_trace [OF this] show "quiet lwt_libev_stop"
    by (intro quietI) (simp add: lwt_libev_stop_def)
  show "quiet lwt_libev_unloop"
    by (simp add: lwt_libev_unloop_def quiet_libev)
qed

lemma quiet_exec_prim: "\<not> is_drive p \<Longrightarrow> quiet (exec_prim conv run p)"
proof (rule quietI)
  fix s
  assume "\<not> is_drive p"
  then show "lwt_unix_in_blocking_section (state_of (exec_prim conv run p s)) = lwt_unix_in_blocking_section s
      \<and> (\<exists>d. trace (state_of (exec_prim conv run p s)) = trace s @ d \<and> list_all quiet_entry d)"
    by (cases p)
       (simp_all add: quiet_init_stop [THEN quiet_flag] quiet_init_stop [THEN quiet_trace]
          quiet_stops [THEN quiet_flag] quiet_stops [THEN quiet_trace]
          quiet_inits [THEN quiet_flag] quiet_inits [THEN quiet_trace]
          quiet_basic(12) [THEN quiet_flag] quiet_basic(12) [THEN quiet_trace]
          quiet_basic(14) [THEN quiet_flag] quiet_basic(14) [THEN quiet_trace]
          lwt_libev_readable_init_def lwt_libev_writable_init_def)
qed

subsection \<open>The flag at the calls into libev and into closures\<close>

lemma CHECK_eq:
  "LWT_UNIX_CHECK s =
     Inr (if lwt_unix_in_blocking_section s \<noteq> 0
          then s\<lparr>lwt_unix_in_blocking_section := 0, caml_blocking := False,
                 trace := trace s @ [(Caml_leave_blocking_section, 0)]\<rparr>
          else s)"
  by (simp add: LWT_UNIX_CHECK_def assign_in_blocking_section_def
        caml_leave_blocking_section_def log_def)

lemma relog_trace_reset: "relog (trace s) (s\<lparr>trace := []\<rparr>) = s"
  by (simp add: relog_def)

lemma blind_from_empty: "blind f \<Longrightarrow> f s = map_state (relog (trace s)) (f (s\<lparr>trace := []\<rparr>))"
  using blindD [of f "trace s" "s\<lparr>trace := []\<rparr>"] by (simp add: relog_trace_reset)

lemma emitted_blind: "blind f \<Longrightarrow> emitted f s = trace (state_of (f (s\<lparr>trace := []\<rparr>)))"
  by (simp add: emitted_def blind_from_empty [of f s])

lemma quiet_entry_stamp_ok: "quiet_entry x \<Longrightarrow> stamp_ok x"
  by (cases x rule: quiet_entry.cases) simp_all

lemma quiet_stamps: "quiet f \<Longrightarrow> stamps_ok s \<Longrightarrow> stamps_ok (state_of (f s))"
  using quiet_trace [of f s] by (auto simp: stamps_ok_def list_all_iff dest: quiet_entry_stamp_ok)

lemma stamps_ok_relog [simp]: "stamps_ok (relog t s) = (list_all stamp_ok t \<and> stamps_ok s)"
  by (simp add: stamps_ok_def)

lemma stamps_ok_empty [simp]: "stamps_ok (s\<lparr>trace := []\<rparr>)"
  by (simp add: stamps_ok_def)

lemma stamps_callback_of:
  assumes "\<And>c s. stamps_ok s \<Longrightarrow> stamps_ok (state_of (run c s))"
    and "stamps_ok s" "lwt_unix_in_blocking_section s = 0"
  shows "stamps_ok (state_of (callback_of a run s))"
  using assms
  by (auto simp: callback_of_def caml_callback_def Let_def stamps_ok_def [of s]
        split: option.splits cell.splits)

lemma stamps_CHECK: "stamps_ok s \<Longrightarrow> stamps_ok (state_of (LWT_UNIX_CHECK s))"
  by (simp add: CHECK_eq stamps_ok_def)

lemma stamps_handler:
  assumes "\<And>c s. stamps_ok s \<Longrightarrow> stamps_ok (state_of (run c s))" and "stamps_ok s"
  shows "stamps_ok (state_of (call_handler h run a s))"
proof -
  obtain s1 where s1: "LWT_UNIX_CHECK s = Inr s1" "lwt_unix_in_blocking_section s1 = 0" "stamps_ok s1"
    using assms(2) by (simp add: CHECK_eq stamps_ok_def)
  have "stamps_ok (state_of (steps [LWT_UNIX_CHECK, callback_of a run] s))"
    using stamps_callback_of [where a = a and run = run and s = s1, OF assms(1) s1(3) s1(2)] s1(1)
    by (cases "callback_of a run s1") simp_all
  then show ?thesis
    by (cases h) (simp_all add: handle_io_def handle_signal_def handle_timer_def)
qed

lemma stamps_ev_invoke:
  assumes "\<And>c s. stamps_ok s \<Longrightarrow> stamps_ok (state_of (run c s))" and "stamps_ok s"
  shows "stamps_ok (state_of (ev_invoke run a s))"
proof -
  have "stamps_ok (log (Ev_invoke a) s)"
    using assms(2) by (simp add: stamps_ok_def)
  from stamps_handler [OF assms(1) this] assms(2) show ?thesis
    by (simp add: ev_invoke_def split: option.splits cell.splits)
qed

lemma stamps_call_pending_upto:
  assumes "\<And>c s. stamps_ok s \<Longrightarrow> stamps_ok (state_of (run c s))"
  shows "stamps_ok s \<Longrightarrow> stamps_ok (state_of (call_pending_upto k run s))"
proof (induction k arbitrary: s)
  case 0
  then show ?case by simp
next
  case (Suc k)
  have "stamps_ok (state_of (steps [ev_invoke run a, call_pending_upto k run] s'))"
    if "stamps_ok s'" for a s'
    by (rule steps_rule [where P = stamps_ok and Q = "\<lambda>r. stamps_ok (state_of r)", OF _ _ _ that])
       (auto simp: Suc.IH stamps_ev_invoke [OF assms])
  moreover have "stamps_ok (s\<lparr>lwt_unix_main_loop := x\<rparr>)" for x
    using Suc.prems by (simp add: stamps_ok_def)
  ultimately show ?case
    using Suc.prems by (simp split: option.splits list.splits)
qed

lemma stamps_call_pending:
  assumes "\<And>c s. stamps_ok s \<Longrightarrow> stamps_ok (state_of (run c s))" and "stamps_ok s"
  shows "stamps_ok (state_of (call_pending run s))"
  using stamps_call_pending_upto [OF assms] assms(2)
  by (simp add: call_pending_def split: option.splits)

lemma stamps_round_rest:
  assumes "\<And>c s. stamps_ok s \<Longrightarrow> stamps_ok (state_of (run c s))"
  shows "stamps_ok s \<Longrightarrow> stamps_ok (state_of (round_rest run ready s))"
  unfolding round_rest_def
  by (rule steps_rule [where P = stamps_ok])
     (auto simp: quiet_stamps [OF quiet_libev(13)] quiet_stamps [OF quiet_libev(14)]
        quiet_stamps [OF quiet_libev(16)] quiet_stamps [OF quiet_queue_events]
        stamps_call_pending [OF assms] stamps_CHECK)

lemma stamps_drive:
  assumes "\<And>c s. stamps_ok s \<Longrightarrow> stamps_ok (state_of (run c s))" and "stamps_ok s"
  shows "stamps_ok (state_of (steps [caml_enter_blocking_section, assign_in_blocking_section 1,
            ev_loop run ready flags, LWT_UNIX_CHECK] s))"
  unfolding drive_decompose
  using assms(2) stamps_round_rest [where run = run and ready = ready
      and s = "s\<lparr>lwt_unix_in_blocking_section := 1, caml_blocking := True, trace := []\<rparr>", OF assms(1)]
  by (simp add: stamps_ok_def [of s] stamps_ok_def [of "_\<lparr>signal_exn := None\<rparr>"] split: option.splits)

lemma stamps_exec_prim:
  assumes "\<And>c s. stamps_ok s \<Longrightarrow> stamps_ok (state_of (run c s))" and "stamps_ok s"
  shows "stamps_ok (state_of (exec_prim conv run p s))"
proof (cases "is_drive p")
  case True
  then show ?thesis
    using stamps_drive [OF assms]
    by (cases p) (simp_all add: lwt_libev_loop_def lwt_libev_loop_no_wait_def)
next
  case False
  then show ?thesis
    by (intro quiet_stamps quiet_exec_prim assms(2))
qed

lemma stamps_closure:
  "stamps_ok s \<Longrightarrow> stamps_ok (state_of (run_closure conv code n c s))"
  by (rule run_closure_rule [where P = stamps_ok and A = "\<lambda>p. True"])
     (simp_all add: stamps_exec_prim list_all_iff)

subsection \<open>The flag where a call ends\<close>

lemma flag_clear_relog [simp]: "flag_clear (map_state (relog t) r) = flag_clear r"
  by (cases r rule: flag_clear.cases) simp_all

lemma flag_clear_errors_clear: "flag_clear r \<Longrightarrow> errors_clear r"
  by (cases r rule: errors_clear.cases) simp_all

lemma clear_callback_of:
  assumes "\<And>c s. lwt_unix_in_blocking_section s = 0 \<Longrightarrow> flag_clear (run c s)"
    and "lwt_unix_in_blocking_section s = 0"
  shows "flag_clear (callback_of a run s)"
  using assms
  by (auto simp: callback_of_def caml_callback_def Let_def split: option.splits cell.splits)

lemma clear_handler:
  assumes "\<And>c s. lwt_unix_in_blocking_section s = 0 \<Longrightarrow> flag_clear (run c s)"
  shows "flag_clear (call_handler h run a s)"
proof -
  obtain s1 where s1: "LWT_UNIX_CHECK s = Inr s1" "lwt_unix_in_blocking_section s1 = 0"
    by (simp add: CHECK_eq)
  have "flag_clear (steps [LWT_UNIX_CHECK, callback_of a run] s)"
    using clear_callback_of [where a = a and run = run and s = s1, OF assms s1(2)] s1(1)
    by (cases "callback_of a run s1") simp_all
  then show ?thesis
    by (cases h) (simp_all add: handle_io_def handle_signal_def handle_timer_def)
qed

lemma clear_ev_invoke:
  assumes "\<And>c s. lwt_unix_in_blocking_section s = 0 \<Longrightarrow> flag_clear (run c s)"
  shows "flag_clear (ev_invoke run a s)"
  using clear_handler [OF assms]
  by (simp add: ev_invoke_def split: option.splits cell.splits)

lemma errors_libev:
  "errors_clear (timers_reify a s)"
  "errors_clear (set_loop_done how s)"
  "errors_clear (ev_loop_leave s)"
  "errors_clear (ev_feed_event a s)"
  "errors_clear (backend_poll s)"
  by (simp_all add: libev_defs split: option.splits cell.splits ev_kind.splits)

lemma errors_queue_events: "errors_clear (queue_events ready s)"
proof (induction ready arbitrary: s)
  case Nil
  then show ?case by simp
next
  case (Cons a ready)
  have "errors_clear (steps [timers_reify a, ev_feed_event a, queue_events ready] s)"
    by (rule steps_rule [where P = "\<lambda>s. True"]) (auto simp: Cons errors_libev)
  with Cons show ?case
    by (simp split: option.splits)
qed

lemma errors_call_pending_upto:
  assumes "\<And>c s. lwt_unix_in_blocking_section s = 0 \<Longrightarrow> flag_clear (run c s)"
  shows "errors_clear (call_pending_upto k run s)"
proof (induction k arbitrary: s)
  case 0
  then show ?case by simp
next
  case (Suc k)
  have "errors_clear (steps [ev_invoke run a, call_pending_upto k run] s')" for a s'
    by (rule steps_rule [where P = "\<lambda>s. True"])
       (auto simp: Suc flag_clear_errors_clear [OF clear_ev_invoke [OF assms]])
  then show ?case
    by (simp split: option.splits list.splits)
qed

lemma errors_call_pending:
  assumes "\<And>c s. lwt_unix_in_blocking_section s = 0 \<Longrightarrow> flag_clear (run c s)"
  shows "errors_clear (call_pending run s)"
  using errors_call_pending_upto [OF assms]
  by (simp add: call_pending_def split: option.splits)

lemma clear_round_rest:
  assumes "\<And>c s. lwt_unix_in_blocking_section s = 0 \<Longrightarrow> flag_clear (run c s)"
  shows "flag_clear (round_rest run ready s)"
proof -
  let ?fs = "[set_loop_done EVUNLOOP_CANCEL, call_pending run, backend_poll, queue_events ready,
              call_pending run, ev_loop_leave]"
  have e: "errors_clear (steps ?fs s)"
    by (rule steps_rule [where P = "\<lambda>s. True"])
       (auto simp: errors_libev errors_queue_events errors_call_pending [OF assms])
  have "round_rest run ready s = steps (?fs @ [LWT_UNIX_CHECK]) s"
    by (simp add: round_rest_def)
  also have "\<dots> = (case steps ?fs s of Inl e \<Rightarrow> Inl e | Inr s' \<Rightarrow> steps [LWT_UNIX_CHECK] s')"
    by (rule steps_append)
  finally show ?thesis
    using e by (cases "steps ?fs s" rule: errors_clear.cases) (simp_all add: CHECK_eq)
qed

text \<open>
  A drive call that the exception of a signal handler ends before the flag is set
  leaves the flag as it found it.
\<close>

lemma clear_drive:
  assumes "\<And>c s. lwt_unix_in_blocking_section s = 0 \<Longrightarrow> flag_clear (run c s)"
    and "signal_exn s = None \<or> lwt_unix_in_blocking_section s = 0"
  shows "flag_clear (steps [caml_enter_blocking_section, assign_in_blocking_section 1,
            ev_loop run ready flags, LWT_UNIX_CHECK] s)"
  unfolding drive_decompose
  using assms(2) by (auto simp: clear_round_rest [OF assms(1)] split: option.splits)

lemma quiet_clear:
  assumes "quiet f" "lwt_unix_in_blocking_section s = 0"
  shows "flag_clear (f s)"
  using quiet_flag [OF assms(1), of s] assms(2)
  by (cases "f s" rule: flag_clear.cases) simp_all

lemma clear_exec_prim:
  assumes "\<And>c s. lwt_unix_in_blocking_section s = 0 \<Longrightarrow> flag_clear (run c s)"
    and "lwt_unix_in_blocking_section s = 0"
  shows "flag_clear (exec_prim conv run p s)"
proof (cases "is_drive p")
  case True
  then show ?thesis
    using clear_drive [OF assms(1)] assms(2)
    by (cases p) (simp_all add: lwt_libev_loop_def lwt_libev_loop_no_wait_def)
next
  case False
  then show ?thesis
    by (intro quiet_clear quiet_exec_prim assms(2))
qed

lemma clear_closure:
  "lwt_unix_in_blocking_section s = 0 \<Longrightarrow> flag_clear (run_closure conv code n c s)"
  by (rule run_closure_rule [where P = "\<lambda>s. lwt_unix_in_blocking_section s = 0" and A = "\<lambda>p. True"])
     (simp_all add: clear_exec_prim list_all_iff)

lemma emitted_drive:
  assumes "signal_exn s = None"
  shows "emitted (steps [caml_enter_blocking_section, assign_in_blocking_section 1,
                   ev_loop run ready flags, LWT_UNIX_CHECK]) s =
     (Caml_enter_blocking_section, lwt_unix_in_blocking_section s) # (Ev_loop flags, 1) #
     trace (state_of (round_rest run ready
        (s\<lparr>lwt_unix_in_blocking_section := 1, caml_blocking := True, trace := []\<rparr>)))"
  unfolding emitted_def drive_enters [OF assms] by simp

text \<open>
  With no event queued when the round starts, the first thing libev does is to turn to
  the operating system, the flag still at 1.
\<close>

lemma round_rest_polls:
  assumes "lwt_unix_main_loop s = Some l" "pendings l = []" "trace s = []"
  shows "take 1 (trace (state_of (round_rest run ready s))) =
           [(Backend_poll, lwt_unix_in_blocking_section s)]"
proof -
  let ?s1 = "s\<lparr>lwt_unix_main_loop := Some (l\<lparr>loop_done := EVUNLOOP_CANCEL\<rparr>),
               trace := trace s @ [(Backend_poll, lwt_unix_in_blocking_section s)]\<rparr>"
  let ?gs = "[queue_events ready, call_pending run, ev_loop_leave, LWT_UNIX_CHECK]"
  have b: "blind (steps ?gs)"
    by (rule blind_steps)
       (simp add: blind_libev blind_queue_events blind_call_pending blind_CHECK)
  have "round_rest run ready s = steps ?gs ?s1"
    using assms(1,2)
    by (simp add: round_rest_def set_loop_done_def call_pending_def backend_poll_def log_def)
  also have "\<dots> = map_state (relog (trace ?s1)) (steps ?gs (?s1\<lparr>trace := []\<rparr>))"
    by (rule blind_from_empty [OF b])
  finally show ?thesis
    using assms(3) by simp
qed

lemma drive_polls:
  assumes "lwt_unix_main_loop s = Some l" "pendings l = []" "signal_exn s = None"
  shows "take 3 (emitted (steps [caml_enter_blocking_section, assign_in_blocking_section 1,
                   ev_loop run ready flags, LWT_UNIX_CHECK]) s) =
     [(Caml_enter_blocking_section, lwt_unix_in_blocking_section s), (Ev_loop flags, 1),
      (Backend_poll, 1)]"
proof -
  let ?s2 = "s\<lparr>lwt_unix_in_blocking_section := 1, caml_blocking := True, trace := []\<rparr>"
  have "take 1 (trace (state_of (round_rest run ready ?s2))) = [(Backend_poll, 1)]"
    using round_rest_polls [where s = ?s2 and l = l and run = run and ready = ready] assms(1,2)
    by simp
  then show ?thesis
    unfolding emitted_drive [OF assms(3)]
    by (cases "trace (state_of (round_rest run ready ?s2))") simp_all
qed

lemma drive_nothing_ready:
  assumes "lwt_unix_main_loop s = Some l" "pendings l = []" "signal_exn s = None"
  shows "steps [caml_enter_blocking_section, assign_in_blocking_section 1,
                ev_loop run [] flags, LWT_UNIX_CHECK] s =
         Inr (s\<lparr>lwt_unix_main_loop :=
                  Some (l\<lparr>loop_done := EVUNLOOP_CANCEL\<rparr>),
                lwt_unix_in_blocking_section := 0, caml_blocking := False,
                trace := trace s @ [(Caml_enter_blocking_section, lwt_unix_in_blocking_section s),
                                    (Ev_loop flags, 1), (Backend_poll, 1),
                                    (Caml_leave_blocking_section, 0)]\<rparr>)"
  using assms
  by (simp add: caml_enter_blocking_section_def assign_in_blocking_section_def ev_loop_def
        set_loop_done_def ev_loop_leave_def call_pending_def backend_poll_def CHECK_eq log_def
        EVUNLOOP_CANCEL_def EVUNLOOP_ONE_def)

subsection \<open>Unfolding the stubs on given states\<close>

lemmas eval_defs =
  run_prims_def lwt_libev_init_def lwt_libev_stop_def lwt_libev_loop_def lwt_libev_loop_no_wait_def
  lwt_libev_unloop_def forget_def
  runtime_defs libev_defs store_defs
  lwt_libev_io_init_def lwt_libev_signal_init_def lwt_libev_timer_init_def
  lwt_libev_readable_init_def lwt_libev_writable_init_def returning_def
  registered_def init_order_def stamped_def
  lwt_libev_io_stop_def lwt_libev_signal_stop_def lwt_libev_timer_stop_def with_watcher_def
  unregistered_def stop_order_def
  ev_loop_def ev_invoke_def call_pending_def handle_io_def handle_signal_def handle_timer_def
  LWT_UNIX_CHECK_def callback_of_def caml_callback_def caml_gc_reclaim_def
  map_state_def relog_def log_def ev_default_loop_def
  EVFLAG_FORKCHECK_def EV_READ_def EV_WRITE_def EVUNLOOP_CANCEL_def EVUNLOOP_ONE_def
  EVLOOP_ONESHOT_def EVLOOP_NONBLOCK_def
  s_null_def s_init_def l_fresh_def emitted_def

lemma stamps_lwt_libev_loop:
  assumes "\<And>c s. stamps_ok s \<Longrightarrow> stamps_ok (state_of (run c s))" and "stamps_ok s"
  shows "stamps_ok (state_of (lwt_libev_loop run ready s))"
    and "stamps_ok (state_of (lwt_libev_loop_no_wait run ready s))"
proof -
  show "stamps_ok (state_of (lwt_libev_loop run ready s))"
    unfolding lwt_libev_loop_def by (rule stamps_drive [OF assms])
  show "stamps_ok (state_of (lwt_libev_loop_no_wait run ready s))"
    unfolding lwt_libev_loop_no_wait_def by (rule stamps_drive [OF assms])
qed

lemma clear_lwt_libev_loop:
  assumes "\<And>c s. lwt_unix_in_blocking_section s = 0 \<Longrightarrow> flag_clear (run c s)"
    and "signal_exn s = None \<or> lwt_unix_in_blocking_section s = 0"
  shows "flag_clear (lwt_libev_loop run ready s)"
    and "flag_clear (lwt_libev_loop_no_wait run ready s)"
proof -
  show "flag_clear (lwt_libev_loop run ready s)"
    unfolding lwt_libev_loop_def by (rule clear_drive [OF assms])
  show "flag_clear (lwt_libev_loop_no_wait run ready s)"
    unfolding lwt_libev_loop_no_wait_def by (rule clear_drive [OF assms])
qed

lemma emitted_lwt_libev_loop:
  assumes "lwt_unix_main_loop s = Some l" "pendings l = []" "signal_exn s = None"
  shows "take 3 (emitted (lwt_libev_loop run ready) s) =
     [(Caml_enter_blocking_section, lwt_unix_in_blocking_section s), (Ev_loop EVLOOP_ONESHOT, 1),
      (Backend_poll, 1)]"
    and "take 3 (emitted (lwt_libev_loop_no_wait run ready) s) =
     [(Caml_enter_blocking_section, lwt_unix_in_blocking_section s),
      (Ev_loop (EVLOOP_ONESHOT OR EVLOOP_NONBLOCK), 1), (Backend_poll, 1)]"
  unfolding lwt_libev_loop_def lwt_libev_loop_no_wait_def
  by (simp_all only: drive_polls [OF assms])

lemma lwt_libev_loop_nothing_ready:
  assumes "lwt_unix_main_loop s = Some l" "pendings l = []" "signal_exn s = None"
  shows "lwt_libev_loop run [] s =
          Inr (s\<lparr>lwt_unix_main_loop := Some (l\<lparr>loop_done := EVUNLOOP_CANCEL\<rparr>),
                 lwt_unix_in_blocking_section := 0, caml_blocking := False,
                 trace := trace s @ [(Caml_enter_blocking_section, lwt_unix_in_blocking_section s),
                                     (Ev_loop EVLOOP_ONESHOT, 1), (Backend_poll, 1),
                                     (Caml_leave_blocking_section, 0)]\<rparr>)"
    and "lwt_libev_loop_no_wait run [] s =
          Inr (s\<lparr>lwt_unix_main_loop := Some (l\<lparr>loop_done := EVUNLOOP_CANCEL\<rparr>),
                 lwt_unix_in_blocking_section := 0, caml_blocking := False,
                 trace := trace s @ [(Caml_enter_blocking_section, lwt_unix_in_blocking_section s),
                                     (Ev_loop (EVLOOP_ONESHOT OR EVLOOP_NONBLOCK), 1),
                                     (Backend_poll, 1),
                                     (Caml_leave_blocking_section, 0)]\<rparr>)"
  unfolding lwt_libev_loop_def lwt_libev_loop_no_wait_def
  by (simp_all only: drive_nothing_ready [OF assms])

subsection \<open>A stopped watcher is invoked for the events it has queued, and no more\<close>

lemma queue_simps [simp]:
  "queue (relog t s) = queue s"
  "queue (log e s) = queue s"
  "queue (s\<lparr>trace := t\<rparr>) = queue s"
  "queue (s\<lparr>lwt_unix_in_blocking_section := v\<rparr>) = queue s"
  "queue (s\<lparr>caml_blocking := b\<rparr>) = queue s"
  "queue (s\<lparr>signal_exn := x\<rparr>) = queue s"
  "queue (s\<lparr>heap := hp\<rparr>) = queue s"
  "queue (s\<lparr>custom_blocks := bs\<rparr>) = queue s"
  "queue (s\<lparr>global_roots := g\<rparr>) = queue s"
  "queue (s\<lparr>lwt_unix_main_loop := None\<rparr>) = []"
  "queue (s\<lparr>lwt_unix_main_loop := Some l\<rparr>) = pendings l"
  by (simp_all add: queue_def relog_def log_def)

lemma stopped_simps [simp]:
  "stopped a (relog t s) = stopped a s"
  "stopped a (log e s) = stopped a s"
  "stopped a (s\<lparr>trace := t\<rparr>) = stopped a s"
  "stopped a (s\<lparr>lwt_unix_in_blocking_section := v\<rparr>) = stopped a s"
  "stopped a (s\<lparr>caml_blocking := b\<rparr>) = stopped a s"
  "stopped a (s\<lparr>signal_exn := x\<rparr>) = stopped a s"
  "stopped a (s\<lparr>heap := hp\<rparr>) = stopped a s"
  "stopped a (s\<lparr>custom_blocks := bs\<rparr>) = stopped a s"
  "stopped a (s\<lparr>global_roots := g\<rparr>) = stopped a s"
  "stopped a (s\<lparr>lwt_unix_main_loop := None\<rparr>)"
  "stopped a (s\<lparr>lwt_unix_main_loop := Some l\<rparr>) = (a \<notin> watchers l)"
  by (simp_all add: stopped_def relog_def log_def)

lemma due_simps [simp]:
  "due a (relog t s) = due a s"
  "due a (log e s) = due a s"
  "due a (s\<lparr>trace := t\<rparr>) = due a s"
  "due a (s\<lparr>lwt_unix_in_blocking_section := v\<rparr>) = due a s"
  "due a (s\<lparr>caml_blocking := b\<rparr>) = due a s"
  "due a (s\<lparr>signal_exn := x\<rparr>) = due a s"
  "due a (s\<lparr>heap := hp\<rparr>) = due a s"
  "due a (s\<lparr>custom_blocks := bs\<rparr>) = due a s"
  "due a (s\<lparr>global_roots := g\<rparr>) = due a s"
  "due a (s\<lparr>lwt_unix_main_loop := None\<rparr>) = 0"
  "due a (s\<lparr>lwt_unix_main_loop := Some l\<rparr>) = count_list (pendings l) a"
  by (simp_all add: due_def)

lemma steps_end [simp]: "(case r of Inl e \<Rightarrow> Inl e | Inr s \<Rightarrow> steps [] s) = r"
  by (cases r) simp_all

lemma invocations_simps [simp]:
  "invocations a [] = 0"
  "invocations a (t @ u) = invocations a t + invocations a u"
  "invocations a ((e, v) # t) = (if e = Ev_invoke a then 1 else 0) + invocations a t"
  by (simp_all add: invocations_def)

lemma count_list_removeAll: "count_list (removeAll x xs) y \<le> count_list xs y"
  by (induction xs) auto

lemma quiet_invocations: "list_all quiet_entry d \<Longrightarrow> invocations a d = 0"
proof (induction d)
  case Nil
  then show ?case by simp
next
  case (Cons x d)
  then show ?case by (cases x rule: quiet_entry.cases) simp_all
qed

lemma never_invoked_invocations: "never_invoked a t = (invocations a t = 0)"
  by (induction t) (auto simp: never_invoked_def invocations_def)

lemma calmI:
  "(\<And>s. stopped a s \<Longrightarrow> stopped a (state_of (f s)) \<and> due a (state_of (f s)) \<le> due a s) \<Longrightarrow> calm a f"
  by (simp add: calm_def)

lemma calmD:
  "calm a f \<Longrightarrow> stopped a s \<Longrightarrow> stopped a (state_of (f s)) \<and> due a (state_of (f s)) \<le> due a s"
  by (simp add: calm_def)

lemma calm_basic:
  "calm a caml_enter_blocking_section"
  "calm a caml_leave_blocking_section"
  "calm a (caml_failwith msg)"
  "calm a (caml_alloc_custom ops h)"
  "calm a (caml_register_generational_global_root a')"
  "calm a (caml_remove_generational_global_root a')"
  "calm a (lwt_unix_new a')"
  "calm a (free a')"
  "calm a (assign_in_blocking_section v)"
  "calm a (assign_main_loop (ev_default_loop fl ok))"
  "calm a (store_custom h a')"
  "calm a (store_data a' c)"
  "calm a (caml_gc_reclaim h)"
  "calm a (\<lambda>s. Inr (s\<lparr>lwt_unix_main_loop := None\<rparr>))"
  "calm a (\<lambda>s. Inr (s\<lparr>signal_exn := x\<rparr>))"
  "calm a (\<lambda>s. Inl (e, s))"
  by (rule calmI;
      simp add: due_def runtime_defs store_defs caml_gc_reclaim_def ev_default_loop_def
        split: option.splits cell.splits)+

lemma calm_libev:
  "calm a (ev_init e a' tr k)"
  "calm a (ev_stop e p a')"
  "calm a ev_loop_destroy"
  "calm a (ev_unloop how)"
  "calm a (timers_reify a')"
  "calm a (set_loop_done how)"
  "calm a ev_loop_leave"
  "calm a backend_poll"
  "a' \<noteq> a \<Longrightarrow> calm a (ev_start e p a')"
  "a' \<noteq> a \<Longrightarrow> calm a (ev_feed_event a')"
  by (rule calmI;
      auto simp: due_def stopped_def queue_def libev_defs count_list_removeAll
        split: option.splits cell.splits ev_kind.splits)+

lemma calm_steps: "list_all (calm a) fs \<Longrightarrow> calm a (steps fs)"
proof (induction fs)
  case Nil
  show ?case by (rule calmI) simp
next
  case (Cons f fs)
  then have f: "calm a f" and fs: "calm a (steps fs)" by simp_all
  show ?case
  proof (rule calmI)
    fix s
    assume s: "stopped a s"
    show "stopped a (state_of (steps (f # fs) s)) \<and> due a (state_of (steps (f # fs) s)) \<le> due a s"
    proof (cases "f s")
      case (Inl e)
      with calmD [OF f s] show ?thesis by simp
    next
      case (Inr s')
      with calmD [OF f s] have s': "stopped a s'" "due a s' \<le> due a s" by simp_all
      from calmD [OF fs s'(1)] s'(2) Inr show ?thesis by simp
    qed
  qed
qed

lemma calm_with_watcher: "(\<And>w. calm a (f w)) \<Longrightarrow> calm a (with_watcher h f)"
  by (rule calmI) (simp add: with_watcher_def calmD split: option.splits)

lemma calm_stops:
  "calm a (lwt_libev_io_stop h)" "calm a (lwt_libev_signal_stop h)" "calm a (lwt_libev_timer_stop h)"
  unfolding lwt_libev_io_stop_def lwt_libev_signal_stop_def lwt_libev_timer_stop_def
    ev_io_stop_def ev_signal_stop_def ev_timer_stop_def
  by (rule calm_with_watcher, rule calm_steps, simp add: calm_basic calm_libev)+

lemma calm_inits:
  assumes "a' \<noteq> a"
  shows "calm a (\<lambda>s. forget (lwt_libev_io_init fd ev c a' h s))"
    and "calm a (\<lambda>s. forget (lwt_libev_signal_init conv n c a' h s))"
    and "calm a (\<lambda>s. forget (lwt_libev_timer_init d c a' h s))"
  unfolding lwt_libev_io_init_def lwt_libev_signal_init_def lwt_libev_timer_init_def forget_returning
    ev_io_init_def ev_signal_init_def ev_timer_init_def
    ev_io_start_def ev_signal_start_def ev_timer_start_def
  by (rule calm_steps, simp add: calm_basic calm_libev assms)+

lemma calm_init_stop: "calm a (lwt_libev_init ok)" "calm a lwt_libev_stop" "calm a lwt_libev_unloop"
proof -
  have "calm a (\<lambda>s. if lwt_unix_main_loop s = None
                    then caml_failwith ''lwt_libev_init: could not initialise the default loop'' s
                    else Inr s)"
    by (rule calmI) (simp add: caml_failwith_def due_def)
  then have "calm a (steps [assign_main_loop (ev_default_loop EVFLAG_FORKCHECK ok),
               \<lambda>s. if lwt_unix_main_loop s = None
                    then caml_failwith ''lwt_libev_init: could not initialise the default loop'' s
                    else Inr s])"
    by (intro calm_steps) (simp add: calm_basic)
  from calmD [OF this] show "calm a (lwt_libev_init ok)"
    by (intro calmI) (simp add: lwt_libev_init_def)
  have "calm a (steps [ev_loop_destroy, \<lambda>s. Inr (s\<lparr>lwt_unix_main_loop := None\<rparr>)])"
    by (rule calm_steps) (simp add: calm_basic calm_libev)
  from calmD [OF this] show "calm a lwt_libev_stop"
    by (intro calmI) (simp add: lwt_libev_stop_def)
  show "calm a lwt_libev_unloop"
    by (simp add: lwt_libev_unloop_def calm_libev)
qed

lemma calm_exec_prim:
  assumes "\<not> is_drive p" "no_alloc a p"
  shows "calm a (exec_prim conv run p)"
proof (rule calmI)
  fix s
  assume "stopped a s"
  then show "stopped a (state_of (exec_prim conv run p s))
      \<and> due a (state_of (exec_prim conv run p s)) \<le> due a s"
    using assms
    by (cases p)
       (simp_all add: no_alloc_def calm_init_stop [THEN calmD] calm_stops [THEN calmD]
          calm_inits [THEN calmD] calm_basic(13) [THEN calmD]
          lwt_libev_readable_init_def lwt_libev_writable_init_def)
qed

lemma calm_queue_events: "calm a (queue_events ready)"
proof (induction ready)
  case Nil
  show ?case by (rule calmI) simp
next
  case (Cons x ready)
  show ?case
  proof (rule calmI)
    fix s
    assume s: "stopped a s"
    show "stopped a (state_of (queue_events (x # ready) s))
        \<and> due a (state_of (queue_events (x # ready) s)) \<le> due a s"
    proof (cases "lwt_unix_main_loop s")
      case None
      with s show ?thesis by simp
    next
      case (Some l)
      show ?thesis
      proof (cases "x \<in> watchers l \<and> x \<notin> set (pendings l)")
        case False
        with Some calmD [OF Cons s] show ?thesis by auto
      next
        case True
        with Some s have "x \<noteq> a"
          by (auto simp: stopped_def)
        then have "calm a (steps [timers_reify x, ev_feed_event x, queue_events ready])"
          by (intro calm_steps) (simp add: calm_libev Cons)
        from calmD [OF this s] Some True show ?thesis by simp
      qed
    qed
  qed
qed

lemma at_most_relog:
  "at_most a N (relog t s) = (stopped a s \<and> due a s + invocations a t + invocations a (trace s) \<le> N)"
  by (auto simp: at_most_def)

lemma quiet_at_most:
  assumes "quiet f" "calm a f" "at_most a N s"
  shows "at_most a N (state_of (f s))"
proof -
  from quiet_trace [OF assms(1), of s] obtain d where
    d: "trace (state_of (f s)) = trace s @ d" "list_all quiet_entry d"
    by auto
  from assms(3) have s: "stopped a s" "due a s + invocations a (trace s) \<le> N"
    by (simp_all add: at_most_def)
  from calmD [OF assms(2) s(1)] s(2) d show ?thesis
    by (simp add: at_most_def quiet_invocations)
qed

lemma at_most_callback_of:
  assumes "\<And>c s N. at_most a N s \<Longrightarrow> at_most a N (state_of (run c s))" and "at_most a N s"
  shows "at_most a N (state_of (callback_of x run s))"
proof -
  let ?s0 = "(log (Caml_callback c) s)\<lparr>trace := []\<rparr>"
  have "at_most a N (state_of (caml_callback run c s))" for c
  proof -
    have "at_most a (N - invocations a (trace s)) (s\<lparr>trace := []\<rparr>)"
      using assms(2) by (auto simp: at_most_def)
    then have "at_most a (N - invocations a (trace s)) (state_of (run c (s\<lparr>trace := []\<rparr>)))"
      by (rule assms(1))
    then show ?thesis
      using assms(2) by (auto simp: caml_callback_def Let_def at_most_relog at_most_def)
  qed
  then show ?thesis
    using assms(2) by (simp add: callback_of_def split: option.splits cell.splits)
qed

lemma at_most_CHECK: "at_most a N s \<Longrightarrow> at_most a N (state_of (LWT_UNIX_CHECK s))"
  by (simp add: CHECK_eq at_most_def)

lemma at_most_steps:
  assumes "\<And>f s. f \<in> set fs \<Longrightarrow> at_most a N s \<Longrightarrow> at_most a N (state_of (f s))" and "at_most a N s"
  shows "at_most a N (state_of (steps fs s))"
  by (rule steps_rule [where P = "at_most a N" and Q = "\<lambda>r. at_most a N (state_of r)"])
     (auto simp: assms)

lemma at_most_handler:
  assumes "\<And>c s N. at_most a N s \<Longrightarrow> at_most a N (state_of (run c s))" and "at_most a N s"
  shows "at_most a N (state_of (call_handler h run x s))"
proof -
  have "at_most a N (state_of (steps [LWT_UNIX_CHECK, callback_of x run] s))"
    by (rule at_most_steps [OF _ assms(2)]) (auto simp: at_most_CHECK at_most_callback_of [OF assms(1)])
  then show ?thesis
    by (cases h) (simp_all add: handle_io_def handle_signal_def handle_timer_def)
qed

text \<open>Serving an event takes it off the queue and puts the call into the log.\<close>

lemma at_most_served:
  assumes "lwt_unix_main_loop s = Some l" "pendings l = x # q" "at_most a N s"
  shows "at_most a N (s\<lparr>lwt_unix_main_loop := Some (l\<lparr>pendings := q\<rparr>)\<rparr>)"
    and "at_most a N (served x q l s)"
  using assms by (auto simp: at_most_def served_def due_def stopped_def queue_def split: if_splits)

lemma at_most_call_pending_upto:
  assumes "\<And>c s N. at_most a N s \<Longrightarrow> at_most a N (state_of (run c s))"
  shows "at_most a N s \<Longrightarrow> at_most a N (state_of (call_pending_upto k run s))"
proof (induction k arbitrary: s)
  case 0
  then show ?case by simp
next
  case (Suc k)
  show ?case
  proof (cases "lwt_unix_main_loop s")
    case None
    with Suc.prems show ?thesis by simp
  next
    case (Some l)
    show ?thesis
    proof (cases "pendings l")
      case Nil
      with Some Suc.prems show ?thesis by simp
    next
      case (Cons x q)
      let ?s0 = "s\<lparr>lwt_unix_main_loop := Some (l\<lparr>pendings := q\<rparr>)\<rparr>"
      have 1: "at_most a N (state_of (ev_invoke run x ?s0))"
        using at_most_served [OF Some Cons Suc.prems]
          at_most_handler [where s = "served x q l s", OF assms]
        by (simp add: ev_invoke_def served_def split: option.splits cell.splits)
      have "at_most a N (state_of (steps [ev_invoke run x, call_pending_upto k run] ?s0))"
      proof (cases "ev_invoke run x ?s0")
        case (Inl e)
        with 1 show ?thesis by simp
      next
        case (Inr s1)
        with 1 have "at_most a N s1" by simp
        from Suc.IH [OF this] Inr show ?thesis by simp
      qed
      with Some Cons show ?thesis by simp
    qed
  qed
qed

lemma at_most_call_pending:
  assumes "\<And>c s N. at_most a N s \<Longrightarrow> at_most a N (state_of (run c s))" and "at_most a N s"
  shows "at_most a N (state_of (call_pending run s))"
  using at_most_call_pending_upto [OF assms] assms(2)
  by (simp add: call_pending_def split: option.splits)

lemma at_most_round_rest:
  assumes "\<And>c s N. at_most a N s \<Longrightarrow> at_most a N (state_of (run c s))" and "at_most a N s"
  shows "at_most a N (state_of (round_rest run ready s))"
  unfolding round_rest_def
  by (rule at_most_steps [OF _ assms(2)])
     (auto simp: at_most_call_pending [OF assms(1)] at_most_CHECK
        quiet_at_most [OF quiet_libev(13) calm_libev(6)]
        quiet_at_most [OF quiet_libev(14) calm_libev(7)]
        quiet_at_most [OF quiet_libev(16) calm_libev(8)]
        quiet_at_most [OF quiet_queue_events calm_queue_events])

lemma at_most_drive:
  assumes "\<And>c s N. at_most a N s \<Longrightarrow> at_most a N (state_of (run c s))" and "at_most a N s"
  shows "at_most a N (state_of (steps [caml_enter_blocking_section, assign_in_blocking_section 1,
            ev_loop run ready flags, LWT_UNIX_CHECK] s))"
proof (cases "signal_exn s")
  case (Some e)
  from assms(2) show ?thesis
    unfolding drive_raises [OF Some] by (simp add: at_most_def)
next
  case None
  let ?s2 = "s\<lparr>lwt_unix_in_blocking_section := 1, caml_blocking := True, trace := []\<rparr>"
  have s2: "at_most a (N - invocations a (trace s)) ?s2"
    using assms(2) by (auto simp: at_most_def)
  have "at_most a (N - invocations a (trace s)) (state_of (round_rest run ready ?s2))"
    by (rule at_most_round_rest) (simp_all only: assms(1) s2)
  with assms(2) show ?thesis
    unfolding drive_enters [OF None]
    by (auto simp: at_most_relog at_most_def)
qed

lemma at_most_exec_prim:
  assumes "no_alloc a p" and "\<And>c s N. at_most a N s \<Longrightarrow> at_most a N (state_of (run c s))"
    and "at_most a N s"
  shows "at_most a N (state_of (exec_prim conv run p s))"
proof (cases "is_drive p")
  case True
  then show ?thesis
    using at_most_drive [OF assms(2,3)]
    by (cases p) (simp_all add: lwt_libev_loop_def lwt_libev_loop_no_wait_def)
next
  case False
  show ?thesis
    by (rule quiet_at_most [OF quiet_exec_prim [OF False] calm_exec_prim [OF False assms(1)] assms(3)])
qed

lemma at_most_closure:
  assumes "\<And>c. list_all (no_alloc a) (code c)" and "at_most a N s"
  shows "at_most a N (state_of (run_closure conv code n c s))"
  using assms(2)
  by (rule run_closure_rule_bound [where P = "at_most a" and Q = "\<lambda>N r. at_most a N (state_of r)"
        and A = "no_alloc a", rotated -1])
     (simp_all add: at_most_exec_prim assms(1))

lemma at_most_program:
  assumes "\<And>c. list_all (no_alloc a) (code c)" and "list_all (no_alloc a) ps" and "at_most a N s"
  shows "at_most a N (state_of (run_prims conv (run_closure conv code n) ps s))"
  using assms(3)
  by (rule program_rule_bound [where P = "at_most a" and Q = "\<lambda>N r. at_most a N (state_of r)"
        and A = "no_alloc a", rotated -1])
     (simp_all add: at_most_exec_prim assms(1,2))

text \<open>
  From a state in which the watcher is stopped, a step calls its trampoline for events
  it has queued, and no more.
\<close>

lemma at_most_emitted:
  assumes "blind f" and "\<And>N s. at_most a N s \<Longrightarrow> at_most a N (state_of (f s))" and "stopped a s"
  shows "stopped a (state_of (f s))
    \<and> due a (state_of (f s)) + invocations a (emitted f s) \<le> due a s"
proof -
  have "at_most a (due a s) (s\<lparr>trace := []\<rparr>)"
    using assms(3) by (simp add: at_most_def)
  then have "at_most a (due a s) (state_of (f (s\<lparr>trace := []\<rparr>)))"
    by (rule assms(2))
  then show ?thesis
    unfolding emitted_blind [OF assms(1)]
    by (simp add: blind_from_empty [OF assms(1), of s] at_most_def)
qed

lemma fire_one_shot:
  assumes "lwt_unix_main_loop s = Some l" "a \<in> watchers l" "a \<notin> set (pendings l)"
    "heap s a = Some (Watcher w)" "kind w = Ev_timer d 0"
  shows "queue_events (a # ready) s = queue_events ready (expired a w l s)"
    and "stopped a (expired a w l s)"
    and "due a (expired a w l s) = 1"
proof -
  have 1: "steps [timers_reify a, ev_feed_event a] s = Inr (expired a w l s)"
    using assms by (simp add: timers_reify_def ev_feed_event_def expired_def)
  have "queue_events (a # ready) s = steps ([timers_reify a, ev_feed_event a] @ [queue_events ready]) s"
    using assms by simp
  also have "\<dots> = queue_events ready (expired a w l s)"
    unfolding steps_append 1 by simp
  finally show "queue_events (a # ready) s = queue_events ready (expired a w l s)" .
  show "stopped a (expired a w l s)"
    by (simp add: expired_def)
  show "due a (expired a w l s) = 1"
    using assms(3) by (simp add: expired_def)
qed

lemma serve_timer:
  assumes "lwt_unix_main_loop s = Some l" "pendings l = a # q"
    "heap s a = Some (Watcher w)" "cb w = Handle_timer"
  shows "call_pending_upto (Suc k) run s =
           steps [handle_timer run a, call_pending_upto k run] (served a q l s)"
  using assms by (simp add: ev_invoke_def served_def)

lemma handle_timer_alone:
  "lwt_unix_main_loop (state_of (handle_timer (\<lambda>c s. Inr s) a s)) = lwt_unix_main_loop s"
  "heap (state_of (handle_timer (\<lambda>c s. Inr s) a s)) = heap s"
  by (simp_all add: handle_timer_def CHECK_eq callback_of_def caml_callback_def Let_def
        split: option.splits cell.splits)

subsection \<open>A descriptor that no stop call reaches\<close>

lemma kept_simps [simp]:
  "kept H a (relog t s) = kept H a s"
  "kept H a (log e s) = kept H a s"
  "kept H a (s\<lparr>trace := t\<rparr>) = kept H a s"
  "kept H a (s\<lparr>lwt_unix_in_blocking_section := v\<rparr>) = kept H a s"
  "kept H a (s\<lparr>caml_blocking := b\<rparr>) = kept H a s"
  "kept H a (s\<lparr>signal_exn := x\<rparr>) = kept H a s"
  "kept H a (s\<lparr>lwt_unix_main_loop := l\<rparr>) = kept H a s"
  by (simp_all add: kept_def relog_def log_def)

lemma kept_basic:
  "kept H a s \<Longrightarrow> kept H a (state_of (caml_enter_blocking_section s))"
  "kept H a s \<Longrightarrow> kept H a (state_of (caml_leave_blocking_section s))"
  "kept H a s \<Longrightarrow> kept H a (state_of (assign_in_blocking_section v s))"
  "kept H a s \<Longrightarrow> kept H a (state_of (caml_failwith msg s))"
  "kept H a s \<Longrightarrow> kept H a (state_of (caml_alloc_custom ops h s))"
  "kept H a s \<Longrightarrow> kept H a (state_of (caml_register_generational_global_root a' s))"
  "kept H a s \<Longrightarrow> kept H a (state_of (lwt_unix_new a' s))"
  "kept H a s \<Longrightarrow> kept H a (state_of (assign_main_loop p s))"
  "kept H a s \<Longrightarrow> kept H a (state_of (store_data a' c s))"
  "kept H a s \<Longrightarrow> kept H a (state_of (caml_gc_reclaim h s))"
  "a' \<noteq> a \<Longrightarrow> kept H a s \<Longrightarrow> kept H a (state_of (caml_remove_generational_global_root a' s))"
  "a' \<noteq> a \<Longrightarrow> kept H a s \<Longrightarrow> kept H a (state_of (free a' s))"
  "a' \<noteq> a \<Longrightarrow> kept H a s \<Longrightarrow> kept H a (state_of (store_custom h a' s))"
  by (auto simp: kept_def points_to_def runtime_defs store_defs caml_gc_reclaim_def
        split: option.splits cell.splits)

lemma kept_libev:
  "kept H a s \<Longrightarrow> kept H a (state_of (ev_init e a' tr k s))"
  "kept H a s \<Longrightarrow> kept H a (state_of (ev_start e p a' s))"
  "kept H a s \<Longrightarrow> kept H a (state_of (ev_stop e p a' s))"
  "kept H a s \<Longrightarrow> kept H a (state_of (ev_loop_destroy s))"
  "kept H a s \<Longrightarrow> kept H a (state_of (ev_unloop how s))"
  "kept H a s \<Longrightarrow> kept H a (state_of (timers_reify a' s))"
  "kept H a s \<Longrightarrow> kept H a (state_of (set_loop_done how s))"
  "kept H a s \<Longrightarrow> kept H a (state_of (ev_loop_leave s))"
  "kept H a s \<Longrightarrow> kept H a (state_of (ev_feed_event a' s))"
  "kept H a s \<Longrightarrow> kept H a (state_of (backend_poll s))"
  by (auto simp: kept_def libev_defs split: option.splits cell.splits ev_kind.splits)

lemma kept_steps:
  assumes "\<And>f s. f \<in> set fs \<Longrightarrow> kept H a s \<Longrightarrow> kept H a (state_of (f s))" and "kept H a s"
  shows "kept H a (state_of (steps fs s))"
  by (rule steps_rule [where P = "kept H a" and Q = "\<lambda>r. kept H a (state_of r)"])
     (auto simp: assms)

lemma kept_stops:
  assumes "h \<notin> H" "kept H a s"
  shows "kept H a (state_of (lwt_libev_io_stop h s))"
    and "kept H a (state_of (lwt_libev_signal_stop h s))"
    and "kept H a (state_of (lwt_libev_timer_stop h s))"
proof -
  have 1: "kept H a (state_of (steps [caml_remove_generational_global_root w, ev_stop e p w, free w] s))"
    if "w \<noteq> a" for w e p
    by (rule kept_steps [OF _ assms(2)]) (insert that, auto simp: kept_basic kept_libev)
  have 2: "w \<noteq> a" if "custom_blocks s h = Some b" "block_data b = Some w" for b w
    using that assms by (auto simp: kept_def points_to_def)
  show "kept H a (state_of (lwt_libev_io_stop h s))"
    and "kept H a (state_of (lwt_libev_signal_stop h s))"
    and "kept H a (state_of (lwt_libev_timer_stop h s))"
    unfolding lwt_libev_io_stop_def lwt_libev_signal_stop_def lwt_libev_timer_stop_def
      ev_io_stop_def ev_signal_stop_def ev_timer_stop_def
    using assms(2) 1 2 by (simp_all add: with_watcher_def split: option.splits)
qed

lemma kept_inits:
  assumes "kept H a s"
  shows "kept H a (state_of (forget (lwt_libev_io_init fd ev c a' h s)))"
    and "kept H a (state_of (forget (lwt_libev_signal_init conv n c a' h s)))"
    and "kept H a (state_of (forget (lwt_libev_timer_init d c a' h s)))"
proof -
  have "kept H a (state_of (steps [lwt_unix_new a', ev_init e a' tr k,
          caml_alloc_custom Watcher_ops h, store_custom h a', store_data a' c,
          caml_register_generational_global_root a', ev_start e' p a'] s))" for e tr k e' p
  proof (cases "a' = a")
    case True
    then have "lwt_unix_new a' s = Inl (Not_fresh, s)"
      using assms by (auto simp: lwt_unix_new_def kept_def)
    then show ?thesis using assms by simp
  next
    case False
    show ?thesis
      by (rule kept_steps [OF _ assms]) (insert False, auto simp: kept_basic kept_libev)
  qed
  then show "kept H a (state_of (forget (lwt_libev_io_init fd ev c a' h s)))"
    and "kept H a (state_of (forget (lwt_libev_signal_init conv n c a' h s)))"
    and "kept H a (state_of (forget (lwt_libev_timer_init d c a' h s)))"
    unfolding lwt_libev_io_init_def lwt_libev_signal_init_def lwt_libev_timer_init_def forget_returning
      ev_io_init_def ev_signal_init_def ev_timer_init_def
      ev_io_start_def ev_signal_start_def ev_timer_start_def
    by blast+
qed

lemma kept_init_stop:
  "kept H a s \<Longrightarrow> kept H a (state_of (lwt_libev_init ok s))"
  "kept H a s \<Longrightarrow> kept H a (state_of (lwt_libev_stop s))"
  "kept H a s \<Longrightarrow> kept H a (state_of (lwt_libev_unloop s))"
  by (auto simp: lwt_libev_init_def lwt_libev_stop_def lwt_libev_unloop_def
        assign_main_loop_def ev_default_loop_def caml_failwith_def ev_loop_destroy_def ev_unloop_def
        split: option.splits)

lemma kept_callback_of:
  assumes "\<And>c s. kept H a s \<Longrightarrow> kept H a (state_of (run c s))" and "kept H a s"
  shows "kept H a (state_of (callback_of x run s))"
  using assms
  by (auto simp: callback_of_def caml_callback_def Let_def split: option.splits cell.splits)

lemma kept_CHECK: "kept H a s \<Longrightarrow> kept H a (state_of (LWT_UNIX_CHECK s))"
  by (simp add: CHECK_eq)

lemma kept_handler:
  assumes "\<And>c s. kept H a s \<Longrightarrow> kept H a (state_of (run c s))" and "kept H a s"
  shows "kept H a (state_of (call_handler h run x s))"
proof -
  have "kept H a (state_of (steps [LWT_UNIX_CHECK, callback_of x run] s))"
    by (rule kept_steps [OF _ assms(2)]) (auto simp: kept_CHECK kept_callback_of [OF assms(1)])
  then show ?thesis
    by (cases h) (simp_all add: handle_io_def handle_signal_def handle_timer_def)
qed

lemma kept_ev_invoke:
  assumes "\<And>c s. kept H a s \<Longrightarrow> kept H a (state_of (run c s))" and "kept H a s"
  shows "kept H a (state_of (ev_invoke run x s))"
  using kept_handler [where s = "log (Ev_invoke x) s", OF assms(1)] assms(2)
  by (simp add: ev_invoke_def split: option.splits cell.splits)

lemma kept_queue_events: "kept H a s \<Longrightarrow> kept H a (state_of (queue_events ready s))"
proof (induction ready arbitrary: s)
  case Nil
  then show ?case by simp
next
  case (Cons x ready)
  have "kept H a (state_of (steps [timers_reify x, ev_feed_event x, queue_events ready] s))"
    by (rule kept_steps [OF _ Cons.prems]) (auto simp: Cons.IH kept_libev)
  with Cons show ?case
    by (simp split: option.splits)
qed

lemma kept_call_pending_upto:
  assumes "\<And>c s. kept H a s \<Longrightarrow> kept H a (state_of (run c s))"
  shows "kept H a s \<Longrightarrow> kept H a (state_of (call_pending_upto k run s))"
proof (induction k arbitrary: s)
  case 0
  then show ?case by simp
next
  case (Suc k)
  have "kept H a (state_of (steps [ev_invoke run x, call_pending_upto k run] s'))"
    if "kept H a s'" for x s'
    by (rule kept_steps [OF _ that]) (auto simp: Suc.IH kept_ev_invoke [OF assms])
  then show ?case
    using Suc.prems by (simp split: option.splits list.splits)
qed

lemma kept_call_pending:
  assumes "\<And>c s. kept H a s \<Longrightarrow> kept H a (state_of (run c s))" and "kept H a s"
  shows "kept H a (state_of (call_pending run s))"
  using kept_call_pending_upto [OF assms] assms(2)
  by (simp add: call_pending_def split: option.splits)

lemma kept_drive:
  assumes "\<And>c s. kept H a s \<Longrightarrow> kept H a (state_of (run c s))" and "kept H a s"
  shows "kept H a (state_of (steps [caml_enter_blocking_section, assign_in_blocking_section 1,
            ev_loop run ready flags, LWT_UNIX_CHECK] s))"
proof -
  have "kept H a (state_of (round_rest run ready s'))" if "kept H a s'" for s'
    unfolding round_rest_def
    by (rule kept_steps [OF _ that])
       (auto simp: kept_call_pending [OF assms(1)] kept_queue_events kept_CHECK kept_libev)
  then show ?thesis
    unfolding drive_decompose using assms(2) by (simp split: option.splits)
qed

lemma kept_exec_prim:
  assumes "no_stop H p" and "\<And>c s. kept H a s \<Longrightarrow> kept H a (state_of (run c s))" and "kept H a s"
  shows "kept H a (state_of (exec_prim conv run p s))"
  using assms(1,3) kept_drive [OF assms(2,3)]
  by (cases p)
     (simp_all add: no_stop_def kept_init_stop kept_stops kept_inits kept_basic
        lwt_libev_loop_def lwt_libev_loop_no_wait_def
        lwt_libev_readable_init_def lwt_libev_writable_init_def)

lemma kept_program:
  assumes "\<And>c. list_all (no_stop H) (code c)" and "list_all (no_stop H) ps" and "kept H a s"
  shows "kept H a (state_of (run_prims conv (run_closure conv code n) ps s))"
  using assms(3)
  by (rule program_rule [where P = "kept H a" and Q = "\<lambda>r. kept H a (state_of r)"
        and A = "no_stop H", rotated -1])
     (simp_all add: kept_exec_prim assms(1,2))

lemma kept_drop: "kept H a s \<Longrightarrow> kept (H - {h}) a (state_of (caml_gc_reclaim h s))"
  by (auto simp: kept_def points_to_def caml_gc_reclaim_def split: option.splits)

lemma gc_reclaim_eq:
  "caml_gc_reclaim h s = Inr (s\<lparr>custom_blocks := (custom_blocks s)(h := None)\<rparr>)"
  by (cases "custom_blocks s h") (simp_all add: caml_gc_reclaim_def fun_upd_idem)

lemma no_stop_empty: "list_all (no_stop {}) ps"
proof -
  have "no_stop {} p" for p
    by (cases p) (simp_all add: no_stop_def)
  then show ?thesis
    by (simp add: list_all_iff)
qed

subsection \<open>A round that returns leaves no event queued\<close>

lemma within_simps [simp]:
  "within N (Inl e) = True"
  "within N (Inr s) = (length (queue s) \<le> N)"
  "within N (map_state (relog t) r) = within N r"
  by (simp_all add: within_def map_state_def split: sum.splits prod.splits)

lemma drained_simps [simp]:
  "drained (Inl e) = True"
  "drained (Inr s) = (queue s = [])"
  "drained (map_state (relog t) r) = drained r"
  by (simp_all add: drained_def map_state_def split: sum.splits prod.splits)

lemma drained_within: "drained r \<Longrightarrow> within N r"
  by (cases r) simp_all

text \<open>A step that returns with a queue no longer than it found.\<close>

lemma within_basic:
  "length (queue s) \<le> N \<Longrightarrow> within N (caml_leave_blocking_section s)"
  "length (queue s) \<le> N \<Longrightarrow> within N (caml_failwith msg s)"
  "length (queue s) \<le> N \<Longrightarrow> within N (caml_alloc_custom ops h s)"
  "length (queue s) \<le> N \<Longrightarrow> within N (caml_register_generational_global_root a s)"
  "length (queue s) \<le> N \<Longrightarrow> within N (caml_remove_generational_global_root a s)"
  "length (queue s) \<le> N \<Longrightarrow> within N (lwt_unix_new a s)"
  "length (queue s) \<le> N \<Longrightarrow> within N (free a s)"
  "length (queue s) \<le> N \<Longrightarrow> within N (store_custom h a s)"
  "length (queue s) \<le> N \<Longrightarrow> within N (store_data a c s)"
  "length (queue s) \<le> N \<Longrightarrow> within N (caml_gc_reclaim h s)"
  by (simp_all add: runtime_defs store_defs caml_gc_reclaim_def split: option.splits cell.splits)

lemma within_libev:
  "length (queue s) \<le> N \<Longrightarrow> within N (ev_init e a tr k s)"
  "length (queue s) \<le> N \<Longrightarrow> within N (ev_start e p a s)"
  "length (queue s) \<le> N \<Longrightarrow> within N (ev_stop e p a s)"
  by (auto simp: libev_defs queue_def intro: order_trans [OF length_removeAll_less_eq]
        split: option.splits cell.splits)

lemma within_steps:
  assumes "\<And>f s. f \<in> set fs \<Longrightarrow> length (queue s) \<le> N \<Longrightarrow> within N (f s)"
    and "length (queue s) \<le> N"
  shows "within N (steps fs s)"
  by (rule steps_rule [where P = "\<lambda>s. length (queue s) \<le> N" and Q = "within N"])
     (auto simp: assms)

lemma within_stops:
  assumes "length (queue s) \<le> N"
  shows "within N (lwt_libev_io_stop h s)"
    and "within N (lwt_libev_signal_stop h s)"
    and "within N (lwt_libev_timer_stop h s)"
proof -
  have "within N (steps [caml_remove_generational_global_root w, ev_stop e p w, free w] s)" for w e p
    by (rule within_steps [OF _ assms]) (auto simp: within_basic within_libev)
  then show "within N (lwt_libev_io_stop h s)"
    and "within N (lwt_libev_signal_stop h s)"
    and "within N (lwt_libev_timer_stop h s)"
    unfolding lwt_libev_io_stop_def lwt_libev_signal_stop_def lwt_libev_timer_stop_def
      ev_io_stop_def ev_signal_stop_def ev_timer_stop_def
    by (simp_all add: with_watcher_def split: option.splits)
qed

lemma within_inits:
  assumes "length (queue s) \<le> N"
  shows "within N (forget (lwt_libev_io_init fd ev c a h s))"
    and "within N (forget (lwt_libev_signal_init conv n c a h s))"
    and "within N (forget (lwt_libev_timer_init d c a h s))"
proof -
  have "within N (steps [lwt_unix_new a, ev_init e a tr k,
          caml_alloc_custom Watcher_ops h, store_custom h a, store_data a c,
          caml_register_generational_global_root a, ev_start e' p a] s)" for e tr k e' p
    by (rule within_steps [OF _ assms]) (auto simp: within_basic within_libev)
  then show "within N (forget (lwt_libev_io_init fd ev c a h s))"
    and "within N (forget (lwt_libev_signal_init conv n c a h s))"
    and "within N (forget (lwt_libev_timer_init d c a h s))"
    unfolding lwt_libev_io_init_def lwt_libev_signal_init_def lwt_libev_timer_init_def forget_returning
      ev_io_init_def ev_signal_init_def ev_timer_init_def
      ev_io_start_def ev_signal_start_def ev_timer_start_def
    by blast+
qed

lemma within_init_stop:
  "length (queue s) \<le> N \<Longrightarrow> within N (lwt_libev_init ok s)"
  "length (queue s) \<le> N \<Longrightarrow> within N (lwt_libev_stop s)"
  "length (queue s) \<le> N \<Longrightarrow> within N (lwt_libev_unloop s)"
  by (auto simp: lwt_libev_init_def lwt_libev_stop_def lwt_libev_unloop_def queue_def
        assign_main_loop_def ev_default_loop_def caml_failwith_def ev_loop_destroy_def ev_unloop_def
        split: option.splits)

text \<open>
  With closures that return with a queue no longer than they found, as many turns as
  there are events queued serve them all.
\<close>

lemma within_handler:
  assumes "\<And>c s N. length (queue s) \<le> N \<Longrightarrow> within N (run c s)" and "length (queue s) \<le> N"
  shows "within N (call_handler h run x s)"
proof -
  have "within N (callback_of x run s')" if "length (queue s') \<le> N" for s'
    using assms(1) [of "(log (Caml_callback c) s')\<lparr>trace := []\<rparr>" N for c] that
    by (simp add: callback_of_def caml_callback_def Let_def split: option.splits cell.splits)
  then have "within N (steps [LWT_UNIX_CHECK, callback_of x run] s)"
    by (intro within_steps [OF _ assms(2)]) (auto simp: CHECK_eq)
  then show ?thesis
    by (cases h) (simp_all add: handle_io_def handle_signal_def handle_timer_def)
qed

lemma within_ev_invoke:
  assumes "\<And>c s N. length (queue s) \<le> N \<Longrightarrow> within N (run c s)" and "length (queue s) \<le> N"
  shows "within N (ev_invoke run x s)"
  using within_handler [where s = "log (Ev_invoke x) s", OF assms(1)] assms(2)
  by (simp add: ev_invoke_def split: option.splits cell.splits)

lemma drained_call_pending_upto:
  assumes "\<And>c s N. length (queue s) \<le> N \<Longrightarrow> within N (run c s)"
  shows "length (queue s) \<le> k \<Longrightarrow> drained (call_pending_upto k run s)"
proof (induction k arbitrary: s)
  case 0
  then show ?case by simp
next
  case (Suc k)
  show ?case
  proof (cases "lwt_unix_main_loop s")
    case None
    then show ?thesis by simp
  next
    case (Some l)
    show ?thesis
    proof (cases "pendings l")
      case Nil
      with Some show ?thesis by (simp add: queue_def)
    next
      case (Cons x q)
      let ?s0 = "s\<lparr>lwt_unix_main_loop := Some (l\<lparr>pendings := q\<rparr>)\<rparr>"
      have 0: "length (queue ?s0) \<le> k"
        using Suc.prems Some Cons by (simp add: queue_def)
      have 1: "within k (ev_invoke run x ?s0)"
        by (rule within_ev_invoke) (simp_all only: assms 0)
      have "drained (steps [ev_invoke run x, call_pending_upto k run] ?s0)"
      proof (cases "ev_invoke run x ?s0")
        case (Inl e)
        then show ?thesis by simp
      next
        case (Inr s1)
        with 1 have "length (queue s1) \<le> k" by simp
        from Suc.IH [OF this] Inr show ?thesis by simp
      qed
      with Some Cons show ?thesis by simp
    qed
  qed
qed

lemma drained_call_pending:
  assumes "\<And>c s N. length (queue s) \<le> N \<Longrightarrow> within N (run c s)"
  shows "drained (call_pending run s)"
proof -
  have "drained (call_pending_upto (length (queue s)) run s)"
    by (rule drained_call_pending_upto) (simp_all only: assms order_refl)
  then show ?thesis
    by (simp add: call_pending_def queue_def split: option.splits)
qed

lemma drained_round_rest:
  assumes "\<And>c s N. length (queue s) \<le> N \<Longrightarrow> within N (run c s)"
  shows "drained (round_rest run ready s)"
proof -
  let ?fs = "[set_loop_done EVUNLOOP_CANCEL, call_pending run, backend_poll, queue_events ready]"
  let ?gs = "[call_pending run, ev_loop_leave, LWT_UNIX_CHECK]"
  have tail: "drained (steps [ev_loop_leave, LWT_UNIX_CHECK] s')" if "queue s' = []" for s'
    using that
    by (auto simp: ev_loop_leave_def set_loop_done_def CHECK_eq queue_def split: option.splits)
  have cp: "drained (call_pending run s')" for s'
    by (rule drained_call_pending) (simp only: assms)
  have "drained (steps ?gs s')" for s'
  proof (cases "call_pending run s'")
    case (Inl e)
    then show ?thesis by simp
  next
    case (Inr s1)
    with cp [of s'] have "queue s1 = []" by simp
    from tail [OF this] Inr show ?thesis by simp
  qed
  moreover have "round_rest run ready s = steps (?fs @ ?gs) s"
    by (simp add: round_rest_def)
  ultimately show ?thesis
    unfolding steps_append by (cases "steps ?fs s") simp_all
qed

lemma drained_drive:
  assumes "\<And>c s N. length (queue s) \<le> N \<Longrightarrow> within N (run c s)"
  shows "drained (steps [caml_enter_blocking_section, assign_in_blocking_section 1,
            ev_loop run ready flags, LWT_UNIX_CHECK] s)"
  unfolding drive_decompose
  by (simp add: drained_round_rest [OF assms] split: option.splits)

lemma within_exec_prim:
  assumes "\<And>c s N. length (queue s) \<le> N \<Longrightarrow> within N (run c s)" and "length (queue s) \<le> N"
  shows "within N (exec_prim conv run p s)"
  using assms(2) drained_within [OF drained_drive [OF assms(1)]]
  by (cases p)
     (simp_all add: within_init_stop within_stops within_inits within_basic
        lwt_libev_loop_def lwt_libev_loop_no_wait_def
        lwt_libev_readable_init_def lwt_libev_writable_init_def)

lemma shrinks_run_closure:
  "length (queue s) \<le> N \<Longrightarrow> within N (run_closure conv code n c s)"
  by (rule run_closure_rule_bound [where P = "\<lambda>N s. length (queue s) \<le> N" and Q = within
        and A = "\<lambda>p. True"])
     (simp_all add: within_exec_prim list_all_iff)

lemma drained_lwt_libev_loop:
  "drained (lwt_libev_loop (run_closure conv code n) ready s)"
  "drained (lwt_libev_loop_no_wait (run_closure conv code n) ready s)"
  unfolding lwt_libev_loop_def lwt_libev_loop_no_wait_def
  by (rule drained_drive, rule shrinks_run_closure, assumption)+

lemma within_program:
  "length (queue s) \<le> N \<Longrightarrow> within N (run_prims conv (run_closure conv code n) ps s)"
  by (rule program_rule_bound [where P = "\<lambda>N s. length (queue s) \<le> N" and Q = within
        and A = "\<lambda>p. True"])
     (simp_all add: within_exec_prim list_all_iff)

text \<open>So a program that starts with no event queued makes each of its calls with none queued.\<close>

lemma drained_program:
  assumes "queue s = []"
  shows "drained (run_prims conv (run_closure conv code n) ps s)"
proof -
  have "within 0 (run_prims conv (run_closure conv code n) ps s)"
    using assms by (intro within_program) simp
  then show ?thesis
    by (cases "run_prims conv (run_closure conv code n) ps s") simp_all
qed

subsection \<open>The claims\<close>

text \<open>
  Claim C1, as amended. Closures being any programs over the stubs, nested however deep:
  in a drive call of either kind, and in a trampoline called from any state, the flag is
  1 at every call of \<^verbatim>\<open>ev_loop\<close> and 0 at every call of a closure, those of nested
  rounds included. When a trampoline ends, by returning or by an exception, the flag is
  0; so it is when a drive call ends, unless the exception of a signal handler ended it
  before the flag was set, and then the flag is what it was, which is 0 wherever OCaml
  code calls the stub. A drive call that returns leaves no event queued, and a program
  that starts with none queued and returns leaves none. A drive call that finds a loop,
  no event queued and no such signal handler goes from
  \<^verbatim>\<open>caml_enter_blocking_section\<close> to the call of \<^verbatim>\<open>ev_loop\<close> to the poll of the
  operating system, the flag at 1 there; with no watcher ready it then leaves the
  blocking section and returns, the flag back at 0. A drive call that a signal handler
  ends by an exception ends in \<^verbatim>\<open>caml_enter_blocking_section\<close>, before the flag is
  set and before libev is called.
\<close>

theorem C1_blocking_section_flag:
  "list_all stamp_ok (emitted (lwt_libev_loop (run_closure conv code n) ready) s)
   \<and> list_all stamp_ok (emitted (lwt_libev_loop_no_wait (run_closure conv code n) ready) s)
   \<and> list_all stamp_ok (emitted (call_handler tr (run_closure conv code n) a) s)
   \<and> (signal_exn s = None \<or> lwt_unix_in_blocking_section s = 0 \<longrightarrow>
        flag_clear (lwt_libev_loop (run_closure conv code n) ready s)
        \<and> flag_clear (lwt_libev_loop_no_wait (run_closure conv code n) ready s))
   \<and> (lwt_libev_loop (run_closure conv code n) ready s = Inr s' \<longrightarrow>
        lwt_unix_in_blocking_section s' = 0)
   \<and> (lwt_libev_loop_no_wait (run_closure conv code n) ready s = Inr s' \<longrightarrow>
        lwt_unix_in_blocking_section s' = 0)
   \<and> flag_clear (call_handler tr (run_closure conv code n) a s)
   \<and> drained (lwt_libev_loop (run_closure conv code n) ready s)
   \<and> drained (lwt_libev_loop_no_wait (run_closure conv code n) ready s)
   \<and> (queue s = [] \<longrightarrow> drained (run_prims conv (run_closure conv code n) ps s))
   \<and> (lwt_unix_main_loop s = Some l \<and> pendings l = [] \<and> signal_exn s = None \<longrightarrow>
        take 3 (emitted (lwt_libev_loop run ready) s) =
          [(Caml_enter_blocking_section, lwt_unix_in_blocking_section s),
           (Ev_loop EVLOOP_ONESHOT, 1), (Backend_poll, 1)]
        \<and> take 3 (emitted (lwt_libev_loop_no_wait run ready) s) =
          [(Caml_enter_blocking_section, lwt_unix_in_blocking_section s),
           (Ev_loop (EVLOOP_ONESHOT OR EVLOOP_NONBLOCK), 1), (Backend_poll, 1)]
        \<and> lwt_libev_loop run [] s =
          Inr (s\<lparr>lwt_unix_main_loop := Some (l\<lparr>loop_done := EVUNLOOP_CANCEL\<rparr>),
                 lwt_unix_in_blocking_section := 0, caml_blocking := False,
                 trace := trace s @ [(Caml_enter_blocking_section, lwt_unix_in_blocking_section s),
                                     (Ev_loop EVLOOP_ONESHOT, 1), (Backend_poll, 1),
                                     (Caml_leave_blocking_section, 0)]\<rparr>)
        \<and> lwt_libev_loop_no_wait run [] s =
          Inr (s\<lparr>lwt_unix_main_loop := Some (l\<lparr>loop_done := EVUNLOOP_CANCEL\<rparr>),
                 lwt_unix_in_blocking_section := 0, caml_blocking := False,
                 trace := trace s @ [(Caml_enter_blocking_section, lwt_unix_in_blocking_section s),
                                     (Ev_loop (EVLOOP_ONESHOT OR EVLOOP_NONBLOCK), 1),
                                     (Backend_poll, 1),
                                     (Caml_leave_blocking_section, 0)]\<rparr>))
   \<and> (signal_exn s = Some e \<longrightarrow>
        lwt_libev_loop run ready s =
          Inl (Raised e, (log Caml_enter_blocking_section s)\<lparr>signal_exn := None\<rparr>)
        \<and> lwt_libev_loop_no_wait run ready s =
          Inl (Raised e, (log Caml_enter_blocking_section s)\<lparr>signal_exn := None\<rparr>))"
proof -
  let ?run = "run_closure conv code n"
  let ?s0 = "s\<lparr>trace := []\<rparr>"
  have run_s: "stamps_ok s \<Longrightarrow> stamps_ok (state_of (?run c s))" for c s
    by (rule stamps_closure)
  have run_c: "lwt_unix_in_blocking_section s = 0 \<Longrightarrow> flag_clear (?run c s)" for c s
    by (rule clear_closure)
  have s0: "stamps_ok ?s0"
    by simp
  have 1: "list_all stamp_ok (emitted (lwt_libev_loop ?run ready) s)"
    unfolding emitted_blind [OF blind_lwt_libev_loop(1)]
    using stamps_lwt_libev_loop(1) [where run = ?run, OF run_s s0]
    by (simp add: stamps_ok_def)
  have 2: "list_all stamp_ok (emitted (lwt_libev_loop_no_wait ?run ready) s)"
    unfolding emitted_blind [OF blind_lwt_libev_loop(2)]
    using stamps_lwt_libev_loop(2) [where run = ?run, OF run_s s0]
    by (simp add: stamps_ok_def)
  have 3: "list_all stamp_ok (emitted (call_handler tr ?run a) s)"
    unfolding emitted_blind [OF blind_call_handler]
    using stamps_handler [where run = ?run, OF run_s s0]
    by (simp add: stamps_ok_def)
  have 4: "flag_clear (lwt_libev_loop ?run ready s)" "flag_clear (lwt_libev_loop_no_wait ?run ready s)"
    if "signal_exn s = None \<or> lwt_unix_in_blocking_section s = 0"
    using clear_lwt_libev_loop [where run = ?run, OF run_c that] by blast+
  have 5: "flag_clear (call_handler tr ?run a s)"
    by (rule clear_handler [OF run_c])
  note 6 = drained_lwt_libev_loop [of conv code n ready s]
  have 9: "lwt_unix_in_blocking_section s' = 0"
    if "lwt_libev_loop ?run ready s = Inr s' \<or> lwt_libev_loop_no_wait ?run ready s = Inr s'"
  proof (cases "signal_exn s")
    case None
    with 4 that show ?thesis by auto
  next
    case (Some x)
    have "lwt_libev_loop ?run ready s = Inl (Raised x, (log Caml_enter_blocking_section s)\<lparr>signal_exn := None\<rparr>)"
      "lwt_libev_loop_no_wait ?run ready s = Inl (Raised x, (log Caml_enter_blocking_section s)\<lparr>signal_exn := None\<rparr>)"
      unfolding lwt_libev_loop_def lwt_libev_loop_no_wait_def
      by (rule drive_raises [OF Some])+
    with that show ?thesis by auto
  qed
  have 8: "queue s = [] \<longrightarrow> drained (run_prims conv ?run ps s)"
    by (simp add: drained_program)
  have 7: "lwt_libev_loop run ready s =
          Inl (Raised e, (log Caml_enter_blocking_section s)\<lparr>signal_exn := None\<rparr>)"
      "lwt_libev_loop_no_wait run ready s =
          Inl (Raised e, (log Caml_enter_blocking_section s)\<lparr>signal_exn := None\<rparr>)"
    if "signal_exn s = Some e"
    unfolding lwt_libev_loop_def lwt_libev_loop_no_wait_def
    by (rule drive_raises [OF that])+
  show ?thesis
    using 1 2 3 4 5 6 7 8 9
      emitted_lwt_libev_loop [of s l run ready] lwt_libev_loop_nothing_ready [of s l run]
    by blast
qed

theorem C1_witness:
  "lwt_unix_main_loop s_watch = Some (l_fresh\<lparr>watchers := {10}\<rparr>)
   \<and> pendings (l_fresh\<lparr>watchers := {10}\<rparr>) = [] \<and> signal_exn s_watch = None
   \<and> lwt_libev_loop (run_closure id stop_self 1) [] s_watch =
       Inr (s_watch\<lparr>trace := [(Caml_enter_blocking_section, 0), (Ev_loop EVLOOP_ONESHOT, 1),
                                (Backend_poll, 1), (Caml_leave_blocking_section, 0)]\<rparr>)
   \<and> emitted (lwt_libev_loop (run_closure id stop_self 1) [10]) s_watch =
       [(Caml_enter_blocking_section, 0), (Ev_loop EVLOOP_ONESHOT, 1), (Backend_poll, 1),
        (Ev_invoke 10, 1), (Caml_leave_blocking_section, 0), (Caml_callback 1, 0),
        (Caml_remove_generational_global_root 10, 0), (Ev_io_stop 10, 0), (Free 10, 0)]
   \<and> list_all stamp_ok (emitted (lwt_libev_loop (run_closure id stop_self 1) [10]) s_watch)
   \<and> flag_clear (lwt_libev_loop (run_closure id stop_self 1) [10] s_watch)
   \<and> lwt_unix_in_blocking_section (state_of (lwt_libev_loop (run_closure id stop_self 1) [] s_watch)) = 0
   \<and> drained (lwt_libev_loop (run_closure id stop_self 1) [10] s_watch)
   \<and> signal_exn (s_watch\<lparr>signal_exn := Some (User_exn 7)\<rparr>) = Some (User_exn 7)
   \<and> lwt_libev_loop (run_closure id stop_self 1) [10] (s_watch\<lparr>signal_exn := Some (User_exn 7)\<rparr>) =
       Inl (Raised (User_exn 7), s_watch\<lparr>trace := [(Caml_enter_blocking_section, 0)]\<rparr>)
   \<and> queue s_watch = []
   \<and> drained (run_prims id (run_closure id stop_self 1) [Call_loop [10], Call_loop []] s_watch)"
proof -
  let ?R = "run_closure id stop_self 1"
  let ?l = "l_fresh\<lparr>watchers := {10}\<rparr>"
  let ?s = "s_watch\<lparr>signal_exn := Some (User_exn 7)\<rparr>"
  have h: "lwt_unix_main_loop s_watch = Some ?l" "pendings ?l = []" "signal_exn s_watch = None"
    by (simp_all add: s_watch_def registered_def s_init_def s_null_def l_fresh_def)
  have g: "signal_exn ?s = Some (User_exn 7)"
    by simp
  have e: "emitted (lwt_libev_loop ?R [10]) s_watch =
       [(Caml_enter_blocking_section, 0), (Ev_loop EVLOOP_ONESHOT, 1), (Backend_poll, 1),
        (Ev_invoke 10, 1), (Caml_leave_blocking_section, 0), (Caml_callback 1, 0),
        (Caml_remove_generational_global_root 10, 0), (Ev_io_stop 10, 0), (Free 10, 0)]"
    by (simp add: eval_defs s_watch_def stop_self_def)
  from C1_blocking_section_flag [where conv = id and code = stop_self and n = 1 and ready = "[10]"
      and s = s_watch and tr = Handle_io and a = 10 and l = ?l and run = ?R and e = "User_exn 7"] h
  have a: "list_all stamp_ok (emitted (lwt_libev_loop ?R [10]) s_watch)"
      "flag_clear (lwt_libev_loop ?R [10] s_watch)"
      "drained (lwt_libev_loop ?R [10] s_watch)"
      "lwt_libev_loop ?R [] s_watch =
         Inr (s_watch\<lparr>lwt_unix_main_loop := Some (?l\<lparr>loop_done := EVUNLOOP_CANCEL\<rparr>),
                lwt_unix_in_blocking_section := 0, caml_blocking := False,
                trace := trace s_watch @ [(Caml_enter_blocking_section, lwt_unix_in_blocking_section s_watch),
                                     (Ev_loop EVLOOP_ONESHOT, 1), (Backend_poll, 1),
                                     (Caml_leave_blocking_section, 0)]\<rparr>)"
    by blast+
  from C1_blocking_section_flag [where conv = id and code = stop_self and n = 1 and ready = "[10]"
      and s = ?s and tr = Handle_io and a = 10 and l = ?l and run = ?R and e = "User_exn 7"] g
  have b: "lwt_libev_loop ?R [10] ?s =
       Inl (Raised (User_exn 7), (log Caml_enter_blocking_section ?s)\<lparr>signal_exn := None\<rparr>)"
    by blast
  have r: "lwt_unix_in_blocking_section (state_of (lwt_libev_loop ?R [] s_watch)) = 0"
    using C1_blocking_section_flag [where conv = id and code = stop_self and n = 1 and ready = "[]"
      and s = s_watch and s' = "state_of (lwt_libev_loop ?R [] s_watch)"] a(4)
    by simp
  have q: "queue s_watch = []"
    by (simp add: queue_def s_watch_def registered_def s_init_def s_null_def l_fresh_def)
  from C1_blocking_section_flag [where conv = id and code = stop_self and n = 1
      and s = s_watch and ps = "[Call_loop [10], Call_loop []]"] q
  have p: "drained (run_prims id ?R [Call_loop [10], Call_loop []] s_watch)"
    by blast
  have c: "s_watch\<lparr>lwt_unix_main_loop := Some (?l\<lparr>loop_done := EVUNLOOP_CANCEL\<rparr>),
                lwt_unix_in_blocking_section := 0, caml_blocking := False,
                trace := trace s_watch @ [(Caml_enter_blocking_section, lwt_unix_in_blocking_section s_watch),
                                     (Ev_loop EVLOOP_ONESHOT, 1), (Backend_poll, 1),
                                     (Caml_leave_blocking_section, 0)]\<rparr> =
           s_watch\<lparr>trace := [(Caml_enter_blocking_section, 0), (Ev_loop EVLOOP_ONESHOT, 1),
                                (Backend_poll, 1), (Caml_leave_blocking_section, 0)]\<rparr>"
    by (simp add: s_watch_def registered_def s_init_def s_null_def l_fresh_def stamped_def
          EVUNLOOP_CANCEL_def)
  have d: "(log Caml_enter_blocking_section ?s)\<lparr>signal_exn := None\<rparr> =
           s_watch\<lparr>trace := [(Caml_enter_blocking_section, 0)]\<rparr>"
    by (simp add: log_def s_watch_def registered_def s_init_def s_null_def stamped_def)
  show ?thesis
    using h g e a(1,2,3) a(4) [unfolded c] b [unfolded d] q p r by blast
qed

text \<open>
  Claim C1 as the spec has it, "the flag is true immediately before the OS wait", fails
  where a round finds an event queued: libev serves it first, the trampoline clears
  the flag and leaves the blocking section, and the poll follows with the flag at 0. One
  way there takes no nesting: of two watchers ready in a round, the closure of the first
  raises, which leaves the event of the second queued, and the next drive call serves it
  before it polls. The other is a closure that drives the loop itself while the event of
  the second watcher is queued.
\<close>

theorem C1_counterexample:
  "queue (state_of (lwt_libev_loop (run_closure id raise_first 1) [10, 11] s_pair)) = [11]
   \<and> lwt_unix_in_blocking_section
       (state_of (lwt_libev_loop (run_closure id raise_first 1) [10, 11] s_pair)) = 0
   \<and> emitted (lwt_libev_loop (run_closure id raise_first 1) [])
       (state_of (lwt_libev_loop (run_closure id raise_first 1) [10, 11] s_pair)) =
       [(Caml_enter_blocking_section, 0), (Ev_loop EVLOOP_ONESHOT, 1), (Ev_invoke 11, 1),
        (Caml_leave_blocking_section, 0), (Caml_callback 2, 0), (Backend_poll, 0)]
   \<and> \<not> list_all waits_in_section
         (emitted (lwt_libev_loop (run_closure id raise_first 1) [])
            (state_of (lwt_libev_loop (run_closure id raise_first 1) [10, 11] s_pair)))
   \<and> emitted (lwt_libev_loop (run_closure id nest_first 2) [10, 11]) s_pair =
       [(Caml_enter_blocking_section, 0), (Ev_loop EVLOOP_ONESHOT, 1), (Backend_poll, 1),
        (Ev_invoke 10, 1), (Caml_leave_blocking_section, 0), (Caml_callback 1, 0),
        (Caml_enter_blocking_section, 0), (Ev_loop EVLOOP_ONESHOT, 1), (Ev_invoke 11, 1),
        (Caml_leave_blocking_section, 0), (Caml_callback 2, 0), (Backend_poll, 0)]
   \<and> \<not> list_all waits_in_section (emitted (lwt_libev_loop (run_closure id nest_first 2) [10, 11]) s_pair)"
proof -
  let ?R = "run_closure id raise_first 1"
  have 1: "lwt_libev_loop ?R [10, 11] s_pair =
      Inl (Raised (User_exn 7),
           s_pair\<lparr>lwt_unix_main_loop :=
                     Some (l_fresh\<lparr>watchers := {10, 11}, pendings := [11]\<rparr>),
                  trace := [(Caml_enter_blocking_section, 0), (Ev_loop EVLOOP_ONESHOT, 1),
                            (Backend_poll, 1), (Ev_invoke 10, 1),
                            (Caml_leave_blocking_section, 0), (Caml_callback 1, 0)]\<rparr>)"
    by (simp add: eval_defs s_pair_def s_watch_def raise_first_def insert_commute)
  have 2: "emitted (lwt_libev_loop ?R [])
       (s_pair\<lparr>lwt_unix_main_loop :=
                     Some (l_fresh\<lparr>watchers := {10, 11}, pendings := [11]\<rparr>),
                  trace := [(Caml_enter_blocking_section, 0), (Ev_loop EVLOOP_ONESHOT, 1),
                            (Backend_poll, 1), (Ev_invoke 10, 1),
                            (Caml_leave_blocking_section, 0), (Caml_callback 1, 0)]\<rparr>) =
       [(Caml_enter_blocking_section, 0), (Ev_loop EVLOOP_ONESHOT, 1), (Ev_invoke 11, 1),
        (Caml_leave_blocking_section, 0), (Caml_callback 2, 0), (Backend_poll, 0)]"
    by (simp add: eval_defs s_pair_def s_watch_def raise_first_def)
  have 3: "emitted (lwt_libev_loop (run_closure id nest_first 2) [10, 11]) s_pair =
       [(Caml_enter_blocking_section, 0), (Ev_loop EVLOOP_ONESHOT, 1), (Backend_poll, 1),
        (Ev_invoke 10, 1), (Caml_leave_blocking_section, 0), (Caml_callback 1, 0),
        (Caml_enter_blocking_section, 0), (Ev_loop EVLOOP_ONESHOT, 1), (Ev_invoke 11, 1),
        (Caml_leave_blocking_section, 0), (Caml_callback 2, 0), (Backend_poll, 0)]"
    by (simp add: eval_defs s_pair_def s_watch_def nest_first_def numeral_2_eq_2)
  show ?thesis
    unfolding 3 unfolding 1 state_of_simps 2
    by (simp add: queue_def l_fresh_def s_pair_def s_watch_def registered_def s_init_def s_null_def)
qed

text \<open>
  Claim C2. From a state with a loop, a free address \<open>a\<close> and a free block \<open>h\<close>, each of
  the four init stubs returns \<open>h\<close> and has done, in this order and nothing else:
  allocate the descriptor, initialise it with the parameters of its kind (fd and
  \<^verbatim>\<open>EV_READ\<close>; fd and \<^verbatim>\<open>EV_WRITE\<close>; the converted signal number; the delay and
  repeat 0), allocate the custom block and store the descriptor's address in it, store
  the closure in the \<^verbatim>\<open>data\<close> slot and register that slot as a root, start the
  watcher. On a handle that points to an initialised descriptor of its kind, each of the
  three stop stubs returns and has done, in this order: remove the root, stop the
  watcher, free the descriptor.
\<close>

theorem C2_init_stop_order:
  "(lwt_unix_main_loop s = Some l \<and> heap s a = None \<and> custom_blocks s h = None \<longrightarrow>
      lwt_libev_readable_init fd c a h s =
        Inr (h, registered (Ev_io fd EV_READ) Handle_io
                  (init_order (Ev_io_init a Handle_io fd EV_READ) (Ev_io_start a) a h c) c a h l s)
      \<and> lwt_libev_writable_init fd c a h s =
        Inr (h, registered (Ev_io fd EV_WRITE) Handle_io
                  (init_order (Ev_io_init a Handle_io fd EV_WRITE) (Ev_io_start a) a h c) c a h l s)
      \<and> lwt_libev_signal_init conv n c a h s =
        Inr (h, registered (Ev_signal (conv n)) Handle_signal
                  (init_order (Ev_signal_init a Handle_signal (conv n)) (Ev_signal_start a) a h c) c a h l s)
      \<and> lwt_libev_timer_init d c a h s =
        Inr (h, registered (Ev_timer d 0) Handle_timer
                  (init_order (Ev_timer_init a Handle_timer d 0) (Ev_timer_start a) a h c) c a h l s))
   \<and> (lwt_unix_main_loop s = Some l \<and> custom_blocks s h = Some b \<and> block_data b = Some a
        \<and> heap s a = Some (Watcher w) \<longrightarrow>
      (is_io (kind w) \<longrightarrow>
         lwt_libev_io_stop h s = Inr (unregistered (stop_order (Ev_io_stop a) a) a w l s))
      \<and> (is_signal (kind w) \<longrightarrow>
         lwt_libev_signal_stop h s = Inr (unregistered (stop_order (Ev_signal_stop a) a) a w l s))
      \<and> (is_timer (kind w) \<longrightarrow>
         lwt_libev_timer_stop h s = Inr (unregistered (stop_order (Ev_timer_stop a) a) a w l s)))"
  by (simp add: io_init_eq signal_init_eq timer_init_eq io_stop_eq signal_stop_eq timer_stop_eq
        lwt_libev_readable_init_def lwt_libev_writable_init_def)

theorem C2_witness:
  "lwt_unix_main_loop s_init = Some l_fresh \<and> heap s_init 10 = None \<and> custom_blocks s_init 20 = None
   \<and> emitted (\<lambda>s. forget (lwt_libev_timer_init 5 1 10 20 s)) s_init =
       stamped 0 [Lwt_unix_new 10, Ev_timer_init 10 Handle_timer 5 0,
                  Caml_alloc_custom 20, Store_custom 20 10,
                  Store_data 10 1, Caml_register_generational_global_root 10,
                  Ev_timer_start 10]
   \<and> is_timer (Ev_timer 5 0)
   \<and> emitted (lwt_libev_timer_stop 20)
         (registered (Ev_timer 5 0) Handle_timer [] 1 10 20 l_fresh s_init) =
       stamped 0 [Caml_remove_generational_global_root 10, Ev_timer_stop 10, Free 10]"
proof -
  let ?w = "\<lparr>active = True, cb = Handle_timer, data = Some 1, kind = Ev_timer 5 0\<rparr>"
  let ?b = "\<lparr>block_ops = Watcher_ops, block_data = Some 10\<rparr>"
  let ?l = "l_fresh\<lparr>watchers := insert 10 (watchers l_fresh)\<rparr>"
  let ?s1 = "registered (Ev_timer 5 0) Handle_timer [] 1 10 20 l_fresh s_init"
  have h: "lwt_unix_main_loop s_init = Some l_fresh" "heap s_init 10 = None" "custom_blocks s_init 20 = None"
    by (simp_all add: s_init_def s_null_def)
  have g: "lwt_unix_main_loop ?s1 = Some ?l" "custom_blocks ?s1 20 = Some ?b" "block_data ?b = Some 10"
      "heap ?s1 10 = Some (Watcher ?w)" "is_timer (kind ?w)"
    by (simp_all add: registered_def)
  show ?thesis
    using h g C2_init_stop_order [of s_init l_fresh 10 20 3 1 id 2 5 ?b ?w]
      C2_init_stop_order [of ?s1 ?l 10 20 3 1 id 2 5 ?b ?w]
    by (simp add: emitted_def state_of_def forget_def registered_def unregistered_def
          init_order_def stop_order_def stamped_def s_init_def s_null_def)
qed

text \<open>
  Claim C3, as amended. When libev cannot create the loop, \<^verbatim>\<open>lwt_libev_init\<close> raises
  the OCaml exception \<open>Failure "lwt_libev_init: could not initialise the default loop"\<close>.
  The static pointer is NULL afterwards and nothing else has changed but the log (the two
  calls made). The exception is an ordinary one: from the state it leaves, a later
  \<^verbatim>\<open>lwt_libev_init\<close> tries again and, when libev succeeds, installs the loop.
\<close>

theorem C3_init_failure_raises:
  assumes "lwt_unix_main_loop s = None"
  shows "lwt_libev_init False s =
           Inl (Raised (Failure ''lwt_libev_init: could not initialise the default loop''),
                init_failed s)
         \<and> lwt_unix_main_loop (init_failed s) = None
         \<and> lwt_libev_init True (init_failed s) =
             Inr ((log (Ev_default_loop EVFLAG_FORKCHECK) (init_failed s))
                    \<lparr>lwt_unix_main_loop := Some l_fresh\<rparr>)"
  using assms
  by (simp add: lwt_libev_init_def assign_main_loop_def ev_default_loop_def
        caml_failwith_def init_failed_def stamped_def log_def l_fresh_def)

theorem C3_witness:
  "lwt_unix_main_loop s_null = None
   \<and> lwt_libev_init False s_null =
       Inl (Raised (Failure ''lwt_libev_init: could not initialise the default loop''),
            init_failed s_null)
   \<and> lwt_unix_main_loop (state_of (lwt_libev_init True (init_failed s_null))) = Some l_fresh"
  using C3_init_failure_raises [of s_null]
  by (simp add: s_null_def state_of_def)

text \<open>
  The claim C3 as the spec states it, "process-fatal and not recoverable", fails: the
  failing call does not end the process, it ends in \<open>Raised\<close>.
\<close>

theorem C3_counterexample:
  "\<not> (case lwt_libev_init False s_null of
         Inl (e, s') \<Rightarrow> process_fatal e \<and> lwt_unix_main_loop s' = None
       | Inr s' \<Rightarrow> False)"
  by (simp add: lwt_libev_init_def s_null_def assign_main_loop_def ev_default_loop_def
        caml_failwith_def)

text \<open>
  Claim C4. \<^verbatim>\<open>lwt_libev_init\<close> with a loop already there returns at once and changes
  nothing, whatever libev would answer; \<^verbatim>\<open>lwt_libev_stop\<close> without a loop returns at
  once and changes nothing. Hence from every state a second call of either right after
  the first adds nothing to what the first did.
\<close>

theorem C4_init_stop_noop:
  "(lwt_unix_main_loop s \<noteq> None \<longrightarrow> lwt_libev_init ok s = Inr s)
   \<and> (lwt_unix_main_loop s = None \<longrightarrow> lwt_libev_stop s = Inr s)
   \<and> steps [lwt_libev_init ok, lwt_libev_init ok'] s = lwt_libev_init ok s
   \<and> steps [lwt_libev_stop, lwt_libev_stop] s = lwt_libev_stop s"
  by (auto simp add: lwt_libev_init_def lwt_libev_stop_def assign_main_loop_def
        ev_default_loop_def caml_failwith_def ev_loop_destroy_def split: option.splits)

theorem C4_witness:
  "lwt_unix_main_loop s_init \<noteq> None \<and> lwt_libev_init True s_init = Inr s_init
   \<and> lwt_unix_main_loop s_null = None \<and> lwt_libev_stop s_null = Inr s_null"
  using C4_init_stop_noop [of s_init True True] C4_init_stop_noop [of s_null True True]
  by (simp add: s_init_def s_null_def)

text \<open>
  Claim C5. \<^verbatim>\<open>lwt_libev_timer_init\<close> initialises the timer with the delay it is given
  and a repeat of 0, and starts it. When that timer is ready in a round, libev stops it
  as it queues its event, once. When the event is served it is taken off the queue, and
  then \<^verbatim>\<open>handle_timer\<close> is called, which starts nothing itself: with a closure that
  does nothing it leaves the loop and the heap as they are. From a state in which the
  timer is stopped it stays stopped, and its trampoline is called for the events it has
  in the queue and no more: at most once after it has expired, and never again after
  that event has been served. That holds in the rest of the round in which it expired,
  closures included, and in any program run afterwards, as long as no init call has the
  allocator return the address of the descriptor anew.
\<close>

theorem C5_timer_one_shot:
  "(lwt_unix_main_loop s = Some l \<and> heap s a = None \<and> custom_blocks s h = None \<longrightarrow>
      lwt_libev_timer_init d c a h s =
        Inr (h, registered (Ev_timer d 0) Handle_timer
                  (init_order (Ev_timer_init a Handle_timer d 0) (Ev_timer_start a) a h c) c a h l s))
   \<and> (lwt_unix_main_loop s = Some l \<and> a \<in> watchers l \<and> a \<notin> set (pendings l)
        \<and> heap s a = Some (Watcher w) \<and> kind w = Ev_timer d 0 \<longrightarrow>
      queue_events (a # ready) s = queue_events ready (expired a w l s)
      \<and> stopped a (expired a w l s) \<and> due a (expired a w l s) = 1)
   \<and> (lwt_unix_main_loop s = Some l \<and> pendings l = a # q
        \<and> heap s a = Some (Watcher w) \<and> cb w = Handle_timer \<longrightarrow>
      call_pending_upto (Suc k) run s =
        steps [handle_timer run a, call_pending_upto k run] (served a q l s))
   \<and> lwt_unix_main_loop (state_of (handle_timer (\<lambda>c s. Inr s) a s)) = lwt_unix_main_loop s
   \<and> heap (state_of (handle_timer (\<lambda>c s. Inr s) a s)) = heap s
   \<and> (stopped a s \<and> (\<forall>c. list_all (no_alloc a) (code c)) \<and> list_all (no_alloc a) ps \<longrightarrow>
      stopped a (state_of (steps [queue_events ready, call_pending (run_closure conv code n),
                                  ev_loop_leave, LWT_UNIX_CHECK] s))
      \<and> due a (state_of (steps [queue_events ready, call_pending (run_closure conv code n),
                                  ev_loop_leave, LWT_UNIX_CHECK] s))
          + invocations a (emitted (steps [queue_events ready, call_pending (run_closure conv code n),
                                  ev_loop_leave, LWT_UNIX_CHECK]) s) \<le> due a s
      \<and> stopped a (state_of (run_prims conv (run_closure conv code n) ps s))
      \<and> due a (state_of (run_prims conv (run_closure conv code n) ps s))
          + invocations a (emitted (run_prims conv (run_closure conv code n) ps) s) \<le> due a s
      \<and> (due a s = 0 \<longrightarrow>
           never_invoked a (emitted (run_prims conv (run_closure conv code n) ps) s)))"
proof -
  let ?R = "run_closure conv code n"
  let ?tail = "steps [queue_events ready, call_pending ?R, ev_loop_leave, LWT_UNIX_CHECK]"
  have R: "at_most a N s \<Longrightarrow> at_most a N (state_of (?R c s))"
    if "\<And>c. list_all (no_alloc a) (code c)" for N c s
    using that by (rule at_most_closure)
  have 5: "stopped a (state_of (?tail s))
      \<and> due a (state_of (?tail s)) + invocations a (emitted ?tail s) \<le> due a s"
    if code: "\<And>c. list_all (no_alloc a) (code c)" and s: "stopped a s"
  proof (rule at_most_emitted [OF _ _ s])
    show "blind ?tail"
      by (intro blind_steps) (simp add: blind_queue_events blind_call_pending blind_libev blind_CHECK)
    fix N s assume "at_most a N s"
    then show "at_most a N (state_of (?tail s))"
      by (intro at_most_steps)
         (auto simp: at_most_CHECK at_most_call_pending [where run = ?R] R [OF code]
            quiet_at_most [OF quiet_queue_events calm_queue_events]
            quiet_at_most [OF quiet_libev(14) calm_libev(7)])
  qed
  have 6: "stopped a (state_of (run_prims conv ?R ps s))
      \<and> due a (state_of (run_prims conv ?R ps s))
          + invocations a (emitted (run_prims conv ?R ps) s) \<le> due a s"
    if code: "\<And>c. list_all (no_alloc a) (code c)" and ps: "list_all (no_alloc a) ps" and s: "stopped a s"
    by (rule at_most_emitted [OF blind_run_prims _ s]) (rule at_most_program [OF code ps])
  have 7: "never_invoked a (emitted (run_prims conv ?R ps) s)"
    if "\<And>c. list_all (no_alloc a) (code c)" "list_all (no_alloc a) ps" "stopped a s" "due a s = 0"
    using 6 [OF that(1,2,3)] that(4) by (simp add: never_invoked_invocations)
  have 1: "lwt_unix_main_loop s = Some l \<and> heap s a = None \<and> custom_blocks s h = None \<longrightarrow>
      lwt_libev_timer_init d c a h s =
        Inr (h, registered (Ev_timer d 0) Handle_timer
                  (init_order (Ev_timer_init a Handle_timer d 0) (Ev_timer_start a) a h c) c a h l s)"
    by (simp add: timer_init_eq)
  have 2: "lwt_unix_main_loop s = Some l \<and> a \<in> watchers l \<and> a \<notin> set (pendings l)
        \<and> heap s a = Some (Watcher w) \<and> kind w = Ev_timer d 0 \<longrightarrow>
      queue_events (a # ready) s = queue_events ready (expired a w l s)
      \<and> stopped a (expired a w l s) \<and> due a (expired a w l s) = 1"
    using fire_one_shot(1) [of s l a w d ready] fire_one_shot(2) [of s l a w d]
      fire_one_shot(3) [of s l a w d] by blast
  have 3: "lwt_unix_main_loop s = Some l \<and> pendings l = a # q
        \<and> heap s a = Some (Watcher w) \<and> cb w = Handle_timer \<longrightarrow>
      call_pending_upto (Suc k) run s =
        steps [handle_timer run a, call_pending_upto k run] (served a q l s)"
    using serve_timer [of s l a q w k run] by blast
  show ?thesis
    using 1 2 3 5 6 7 handle_timer_alone [of a s] by blast
qed

theorem C5_witness:
  "lwt_unix_main_loop s_init = Some l_fresh \<and> heap s_init 10 = None \<and> custom_blocks s_init 20 = None
   \<and> lwt_libev_timer_init 5 1 10 20 s_init =
       Inr (20, registered (Ev_timer 5 0) Handle_timer
                 (init_order (Ev_timer_init 10 Handle_timer 5 0) (Ev_timer_start 10) 10 20 1)
                 1 10 20 l_fresh s_init)
   \<and> emitted (run_prims id (run_closure id do_nothing 1) [Call_loop [10, 10], Call_loop [10]]) s_timer =
       [(Caml_enter_blocking_section, 0), (Ev_loop EVLOOP_ONESHOT, 1), (Backend_poll, 1),
        (Ev_invoke 10, 1), (Caml_leave_blocking_section, 0), (Caml_callback 1, 0),
        (Caml_enter_blocking_section, 0), (Ev_loop EVLOOP_ONESHOT, 1), (Backend_poll, 1),
        (Caml_leave_blocking_section, 0)]
   \<and> stopped 10 (expired 10 \<lparr>active = True, cb = Handle_timer, data = Some 1, kind = Ev_timer 5 0\<rparr>
         (l_fresh\<lparr>watchers := {10}\<rparr>) s_timer)
   \<and> due 10 (expired 10 \<lparr>active = True, cb = Handle_timer, data = Some 1, kind = Ev_timer 5 0\<rparr>
         (l_fresh\<lparr>watchers := {10}\<rparr>) s_timer) = 1
   \<and> call_pending_upto (Suc 0) (\<lambda>c s. Inr s)
         (expired 10 \<lparr>active = True, cb = Handle_timer, data = Some 1, kind = Ev_timer 5 0\<rparr>
            (l_fresh\<lparr>watchers := {10}\<rparr>) s_timer) =
       steps [handle_timer (\<lambda>c s. Inr s) 10, call_pending_upto 0 (\<lambda>c s. Inr s)]
         (served 10 [] (l_fresh\<lparr>watchers := {}, pendings := [10]\<rparr>)
            (expired 10 \<lparr>active = True, cb = Handle_timer, data = Some 1, kind = Ev_timer 5 0\<rparr>
               (l_fresh\<lparr>watchers := {10}\<rparr>) s_timer))
   \<and> (\<forall>c. list_all (no_alloc 10) (do_nothing c)) \<and> list_all (no_alloc 10) [Call_loop [10]]
   \<and> invocations 10 (emitted (run_prims id (run_closure id do_nothing 1) [Call_loop [10]])
         (expired 10 \<lparr>active = True, cb = Handle_timer, data = Some 1, kind = Ev_timer 5 0\<rparr>
            (l_fresh\<lparr>watchers := {10}\<rparr>) s_timer)) \<le> 1"
proof -
  let ?w = "\<lparr>active = True, cb = Handle_timer, data = Some 1, kind = Ev_timer 5 0\<rparr>"
  let ?l = "l_fresh\<lparr>watchers := {10}\<rparr>"
  let ?l' = "l_fresh\<lparr>watchers := {}, pendings := [10]\<rparr>"
  let ?s = "expired 10 ?w ?l s_timer"
  let ?P = "run_prims id (run_closure id do_nothing 1) [Call_loop [10]]"
  have h1: "lwt_unix_main_loop s_init = Some l_fresh" "heap s_init 10 = None" "custom_blocks s_init 20 = None"
    by (simp_all add: s_init_def s_null_def)
  have h2: "lwt_unix_main_loop s_timer = Some ?l \<and> 10 \<in> watchers ?l \<and> 10 \<notin> set (pendings ?l)
      \<and> heap s_timer 10 = Some (Watcher ?w) \<and> kind ?w = Ev_timer 5 0"
    by (simp add: s_timer_def registered_def s_init_def s_null_def l_fresh_def)
  have h3: "\<forall>c. list_all (no_alloc 10) (do_nothing c)" "list_all (no_alloc 10) [Call_loop [10]]"
    by (simp_all add: do_nothing_def no_alloc_def)
  have h4: "lwt_unix_main_loop ?s = Some ?l' \<and> pendings ?l' = [10]
      \<and> heap ?s 10 = Some (Watcher (?w\<lparr>active := False\<rparr>)) \<and> cb (?w\<lparr>active := False\<rparr>) = Handle_timer"
    by (simp add: expired_def l_fresh_def)
  have e: "emitted (run_prims id (run_closure id do_nothing 1) [Call_loop [10, 10], Call_loop [10]]) s_timer =
       [(Caml_enter_blocking_section, 0), (Ev_loop EVLOOP_ONESHOT, 1), (Backend_poll, 1),
        (Ev_invoke 10, 1), (Caml_leave_blocking_section, 0), (Caml_callback 1, 0),
        (Caml_enter_blocking_section, 0), (Ev_loop EVLOOP_ONESHOT, 1), (Backend_poll, 1),
        (Caml_leave_blocking_section, 0)]"
    by (simp add: eval_defs s_timer_def do_nothing_def)
  have a: "lwt_libev_timer_init 5 1 10 20 s_init =
       Inr (20, registered (Ev_timer 5 0) Handle_timer
                 (init_order (Ev_timer_init 10 Handle_timer 5 0) (Ev_timer_start 10) 10 20 1)
                 1 10 20 l_fresh s_init)"
    using C5_timer_one_shot [where s = s_init and l = l_fresh and a = 10 and h = 20 and d = 5 and c = 1,
        THEN conjunct1] h1
    by simp
  have b: "stopped 10 ?s \<and> due 10 ?s = 1"
    using C5_timer_one_shot [where s = s_timer and l = ?l and a = 10 and d = 5 and w = ?w,
        THEN conjunct2, THEN conjunct1] h2
    by simp
  have c: "call_pending_upto (Suc 0) (\<lambda>c s. Inr s) ?s =
       steps [handle_timer (\<lambda>c s. Inr s) 10, call_pending_upto 0 (\<lambda>c s. Inr s)] (served 10 [] ?l' ?s)"
    using C5_timer_one_shot [where s = ?s and l = ?l' and a = 10 and q = "[]" and w = "?w\<lparr>active := False\<rparr>"
      and k = 0 and run = "\<lambda>c s. Inr s",
        THEN conjunct2, THEN conjunct2, THEN conjunct1] h4
    by (rule mp)
  have hyp: "stopped 10 ?s \<and> (\<forall>c. list_all (no_alloc 10) (do_nothing c)) \<and> list_all (no_alloc 10) [Call_loop [10]]"
    using b h3 by simp
  note r = mp [OF C5_timer_one_shot [where s = ?s and a = 10 and code = do_nothing and ps = "[Call_loop [10]]"
      and conv = id and n = 1,
        THEN conjunct2, THEN conjunct2, THEN conjunct2, THEN conjunct2, THEN conjunct2] hyp]
  have "due 10 (state_of (?P ?s)) + invocations 10 (emitted ?P ?s) \<le> due 10 ?s"
    by (rule r [THEN conjunct2, THEN conjunct2, THEN conjunct2, THEN conjunct1])
  with b have d: "invocations 10 (emitted ?P ?s) \<le> 1"
    by simp
  show ?thesis
    by (intro conjI) (fact h1 h3 e a c d b [THEN conjunct1] b [THEN conjunct2])+
qed

text \<open>
  Claim C6. Register a readable and a writable watcher on the same fd, from a state with
  a loop and with distinct free addresses and blocks. Both are then watchers in full, each
  with its own descriptor, pin, handle and closure. Stopping the readable one releases its
  descriptor and leaves the writable one a watcher in full, with the same descriptor
  contents; and the other way round.
\<close>

theorem C6_read_write_independent:
  assumes "lwt_unix_main_loop s = Some l"
    and "heap s aR = None" "heap s aW = None" "aR \<noteq> aW"
    and "custom_blocks s hR = None" "custom_blocks s hW = None" "hR \<noteq> hW"
  shows "case steps [\<lambda>s. forget (lwt_libev_readable_init fd cR aR hR s),
                     \<lambda>s. forget (lwt_libev_writable_init fd cW aW hW s)] s of
           Inl e \<Rightarrow> False
         | Inr s2 \<Rightarrow>
             watching aR (w_read fd cR) hR s2 \<and> watching aW (w_write fd cW) hW s2
             \<and> (case lwt_libev_io_stop hR s2 of
                    Inl e \<Rightarrow> False
                  | Inr s3 \<Rightarrow>
                      watching aW (w_write fd cW) hW s3
                      \<and> heap s3 aR = None \<and> aR \<notin> global_roots s3 \<and> stopped aR s3)
             \<and> (case lwt_libev_io_stop hW s2 of
                    Inl e \<Rightarrow> False
                  | Inr s3 \<Rightarrow>
                      watching aR (w_read fd cR) hR s3
                      \<and> heap s3 aW = None \<and> aW \<notin> global_roots s3 \<and> stopped aW s3)"
proof -
  let ?eR = "init_order (Ev_io_init aR Handle_io fd EV_READ) (Ev_io_start aR) aR hR cR"
  let ?eW = "init_order (Ev_io_init aW Handle_io fd EV_WRITE) (Ev_io_start aW) aW hW cW"
  let ?s1 = "registered (Ev_io fd EV_READ) Handle_io ?eR cR aR hR l s"
  let ?l1 = "l\<lparr>watchers := insert aR (watchers l)\<rparr>"
  let ?s2 = "registered (Ev_io fd EV_WRITE) Handle_io ?eW cW aW hW ?l1 ?s1"
  let ?l2 = "?l1\<lparr>watchers := insert aW (watchers ?l1)\<rparr>"
  have 1: "lwt_libev_readable_init fd cR aR hR s = Inr (hR, ?s1)"
    unfolding lwt_libev_readable_init_def using assms by (intro io_init_eq) simp_all
  have 2: "lwt_libev_writable_init fd cW aW hW ?s1 = Inr (hW, ?s2)"
    unfolding lwt_libev_writable_init_def using assms
    by (intro io_init_eq) (simp_all add: registered_def)
  have both: "steps [\<lambda>s. forget (lwt_libev_readable_init fd cR aR hR s),
                     \<lambda>s. forget (lwt_libev_writable_init fd cW aW hW s)] s = Inr ?s2"
    by (simp add: 1 2 forget_def)
  have wR: "watching aR (w_read fd cR) hR ?s2" and wW: "watching aW (w_write fd cW) hW ?s2"
    using assms by (simp_all add: watching_def registered_def w_read_def w_write_def)
  have sR: "lwt_libev_io_stop hR ?s2 =
      Inr (unregistered (stop_order (Ev_io_stop aR) aR) aR (w_read fd cR) ?l2 ?s2)"
    using assms
    by (intro io_stop_eq [where b = "\<lparr>block_ops = Watcher_ops, block_data = Some aR\<rparr>"])
       (simp_all add: registered_def w_read_def)
  have sW: "lwt_libev_io_stop hW ?s2 =
      Inr (unregistered (stop_order (Ev_io_stop aW) aW) aW (w_write fd cW) ?l2 ?s2)"
    using assms
    by (intro io_stop_eq [where b = "\<lparr>block_ops = Watcher_ops, block_data = Some aW\<rparr>"])
       (simp_all add: registered_def w_write_def)
  have aR: "watching aW (w_write fd cW) hW (unregistered (stop_order (Ev_io_stop aR) aR) aR (w_read fd cR) ?l2 ?s2)"
      "heap (unregistered (stop_order (Ev_io_stop aR) aR) aR (w_read fd cR) ?l2 ?s2) aR = None"
      "aR \<notin> global_roots (unregistered (stop_order (Ev_io_stop aR) aR) aR (w_read fd cR) ?l2 ?s2)"
      "stopped aR (unregistered (stop_order (Ev_io_stop aR) aR) aR (w_read fd cR) ?l2 ?s2)"
    using assms
    by (simp_all add: watching_def stopped_def unregistered_def registered_def w_read_def w_write_def)
  have aW: "watching aR (w_read fd cR) hR (unregistered (stop_order (Ev_io_stop aW) aW) aW (w_write fd cW) ?l2 ?s2)"
      "heap (unregistered (stop_order (Ev_io_stop aW) aW) aW (w_write fd cW) ?l2 ?s2) aW = None"
      "aW \<notin> global_roots (unregistered (stop_order (Ev_io_stop aW) aW) aW (w_write fd cW) ?l2 ?s2)"
      "stopped aW (unregistered (stop_order (Ev_io_stop aW) aW) aW (w_write fd cW) ?l2 ?s2)"
    using assms
    by (simp_all add: watching_def stopped_def unregistered_def registered_def w_read_def w_write_def)
  show ?thesis
    unfolding both using wR wW aR aW by (simp add: sR sW)
qed

theorem C6_witness:
  "lwt_unix_main_loop s_init = Some l_fresh
   \<and> heap s_init 10 = None \<and> heap s_init 11 = None \<and> (10::nat) \<noteq> 11
   \<and> custom_blocks s_init 20 = None \<and> custom_blocks s_init 21 = None \<and> (20::nat) \<noteq> 21
   \<and> (case steps [\<lambda>s. forget (lwt_libev_readable_init 3 1 10 20 s),
                     \<lambda>s. forget (lwt_libev_writable_init 3 2 11 21 s)] s_init of
           Inl e \<Rightarrow> False
         | Inr s2 \<Rightarrow>
             (case lwt_libev_io_stop 20 s2 of
                Inl e \<Rightarrow> False
              | Inr s3 \<Rightarrow> watching 11 (w_write 3 2) 21 s3 \<and> heap s3 10 = None))"
proof -
  have h: "lwt_unix_main_loop s_init = Some l_fresh"
      "heap s_init 10 = None" "heap s_init 11 = None" "(10::nat) \<noteq> 11"
      "custom_blocks s_init 20 = None" "custom_blocks s_init 21 = None" "(20::nat) \<noteq> 21"
    by (simp_all add: s_init_def s_null_def)
  show ?thesis
    using h C6_read_write_independent [OF h, of 3 1 2]
    by (auto split: sum.splits)
qed

text \<open>
  Claim C7. \<^verbatim>\<open>LWT_UNIX_CHECK\<close> (the spec's \<open>check_and_leave\<close>) is idempotent. From any
  state: when the flag is set it clears the flag and calls
  \<^verbatim>\<open>caml_leave_blocking_section\<close> once, the flag being 0 already at the call; when the
  flag is 0 it changes nothing. Running it twice gives the state, log included, that
  running it once gives.
\<close>

theorem C7_check_and_leave_idempotent:
  "LWT_UNIX_CHECK s =
     Inr (if lwt_unix_in_blocking_section s \<noteq> 0
          then s\<lparr>lwt_unix_in_blocking_section := 0, caml_blocking := False,
                 trace := trace s @ [(Caml_leave_blocking_section, 0)]\<rparr>
          else s)
   \<and> steps [LWT_UNIX_CHECK, LWT_UNIX_CHECK] s = LWT_UNIX_CHECK s"
  by (simp add: LWT_UNIX_CHECK_def assign_in_blocking_section_def
        caml_leave_blocking_section_def log_def)

text \<open>
  Claim C8. \<^verbatim>\<open>lwt_libev_loop\<close> and \<^verbatim>\<open>lwt_libev_loop_no_wait\<close> are the drive of the
  spec (enter the blocking section, one one-shot round of libev, check and leave), the
  first with no further flag and the second with \<^verbatim>\<open>EVLOOP_NONBLOCK\<close>. On the same
  ready watchers, from the same state and with the same closures, the two end the same
  way in the same state; their logs are equal but for the flags passed to the round.
\<close>

theorem C8_drive_variants:
  "lwt_libev_loop run ready s = drive 0 run ready s
   \<and> lwt_libev_loop_no_wait run ready s = drive EVLOOP_NONBLOCK run ready s
   \<and> lwt_libev_loop_no_wait run ready s =
       map_state (with_round_flags (EVLOOP_ONESHOT OR EVLOOP_NONBLOCK) s) (lwt_libev_loop run ready s)
   \<and> lwt_libev_loop run ready s =
       map_state (with_round_flags EVLOOP_ONESHOT s) (lwt_libev_loop_no_wait run ready s)"
proof -
  have check: "check_and_leave = LWT_UNIX_CHECK"
    by (rule ext) (simp add: check_and_leave_def LWT_UNIX_CHECK_def)
  have a: "lwt_libev_loop run ready s = drive 0 run ready s"
    by (cases "signal_exn s")
       (simp_all add: lwt_libev_loop_def drive_def enter_def check caml_enter_blocking_section_def
          assign_in_blocking_section_def)
  have b: "lwt_libev_loop_no_wait run ready s = drive EVLOOP_NONBLOCK run ready s"
    by (cases "signal_exn s")
       (simp_all add: lwt_libev_loop_no_wait_def drive_def enter_def check caml_enter_blocking_section_def
          assign_in_blocking_section_def)
  have c: "map_state (with_round_flags fl s)
             (steps [caml_enter_blocking_section, assign_in_blocking_section 1,
                     ev_loop run ready fl', LWT_UNIX_CHECK] s) =
           steps [caml_enter_blocking_section, assign_in_blocking_section 1,
                  ev_loop run ready fl, LWT_UNIX_CHECK] s" for fl fl'
  proof (cases "signal_exn s")
    case (Some e)
    show ?thesis
      unfolding drive_raises [OF Some]
      by (simp add: with_round_flags_def log_def list_update_append)
  next
    case None
    show ?thesis
      unfolding drive_enters [OF None]
      by (rule arg_cong [where f = "\<lambda>f. map_state f r" for r, THEN trans [OF map_state_comp]])
         (rule ext, simp add: with_round_flags_def relog_def list_update_append)
  qed
  show ?thesis
    using a b c [of "EVLOOP_ONESHOT OR EVLOOP_NONBLOCK" EVLOOP_ONESHOT]
      c [of EVLOOP_ONESHOT "EVLOOP_ONESHOT OR EVLOOP_NONBLOCK"]
    by (simp add: lwt_libev_loop_def lwt_libev_loop_no_wait_def)
qed

text \<open>
  Claim C9. With a loop, \<^verbatim>\<open>lwt_libev_unloop\<close> returns, and all it does is ask libev
  for \<^verbatim>\<open>EVUNLOOP_ONE\<close>: the request is noted in the loop, the call is in the log, and
  the watchers, the queue, the heap, the pins, the handles, the static pointer and the
  flag are what they were. A drive call made afterwards ends as it would have ended
  without the request, in the same state; the logs differ by the entry of the unloop
  call. That is so whenever the drive call gets as far as libev; one that the exception
  of a signal handler ends before, raises that exception with or without the request,
  which then stays noted. No drive call that returns leaves a one-level request behind.
\<close>

theorem C9_unloop:
  assumes "lwt_unix_main_loop s = Some l"
  shows "lwt_libev_unloop s = Inr (unlooped l s)
    \<and> (signal_exn s = None \<longrightarrow>
         lwt_libev_loop run ready (unlooped l s) =
           map_state (with_entry (Ev_unloop EVUNLOOP_ONE, lwt_unix_in_blocking_section s) s)
             (lwt_libev_loop run ready s)
         \<and> lwt_libev_loop_no_wait run ready (unlooped l s) =
           map_state (with_entry (Ev_unloop EVUNLOOP_ONE, lwt_unix_in_blocking_section s) s)
             (lwt_libev_loop_no_wait run ready s))
    \<and> (signal_exn s = Some e \<longrightarrow>
         lwt_libev_loop run ready s =
           Inl (Raised e, (log Caml_enter_blocking_section s)\<lparr>signal_exn := None\<rparr>)
         \<and> lwt_libev_loop run ready (unlooped l s) =
           Inl (Raised e, (log Caml_enter_blocking_section (unlooped l s))\<lparr>signal_exn := None\<rparr>)
         \<and> lwt_libev_loop_no_wait run ready s =
           Inl (Raised e, (log Caml_enter_blocking_section s)\<lparr>signal_exn := None\<rparr>)
         \<and> lwt_libev_loop_no_wait run ready (unlooped l s) =
           Inl (Raised e, (log Caml_enter_blocking_section (unlooped l s))\<lparr>signal_exn := None\<rparr>))
    \<and> \<not> request_pending (lwt_libev_loop run ready s')
    \<and> \<not> request_pending (lwt_libev_loop_no_wait run ready s')"
proof -
  have 1: "lwt_libev_unloop s = Inr (unlooped l s)"
    using assms by (simp add: lwt_libev_unloop_def ev_unloop_def unlooped_def log_def)
  have 2: "lwt_libev_loop run ready (unlooped l s) =
           map_state (with_entry (Ev_unloop EVUNLOOP_ONE, lwt_unix_in_blocking_section s) s)
             (lwt_libev_loop run ready s)"
      "lwt_libev_loop_no_wait run ready (unlooped l s) =
           map_state (with_entry (Ev_unloop EVUNLOOP_ONE, lwt_unix_in_blocking_section s) s)
             (lwt_libev_loop_no_wait run ready s)"
    if "signal_exn s = None"
    unfolding lwt_libev_loop_def lwt_libev_loop_no_wait_def
    by (rule drive_after_unloop [OF assms that])+
  have 3: "lwt_libev_loop run ready s0 =
           Inl (Raised e, (log Caml_enter_blocking_section s0)\<lparr>signal_exn := None\<rparr>)"
      "lwt_libev_loop_no_wait run ready s0 =
           Inl (Raised e, (log Caml_enter_blocking_section s0)\<lparr>signal_exn := None\<rparr>)"
    if "signal_exn s0 = Some e" for s0
    unfolding lwt_libev_loop_def lwt_libev_loop_no_wait_def
    by (rule drive_raises [OF that])+
  have 4: "signal_exn s = Some e \<Longrightarrow> signal_exn (unlooped l s) = Some e"
    by (simp add: unlooped_def)
  have 5: "\<not> request_pending (lwt_libev_loop run ready s')"
      "\<not> request_pending (lwt_libev_loop_no_wait run ready s')"
    unfolding lwt_libev_loop_def lwt_libev_loop_no_wait_def
    by (rule not_pending_drive)+
  show ?thesis
    using 1 2 3 [of s] 3 [OF 4] 5 by blast
qed

theorem C9_witness:
  "lwt_unix_main_loop s_init = Some l_fresh
   \<and> lwt_libev_unloop s_init = Inr (unlooped l_fresh s_init)
   \<and> signal_exn s_init = None
   \<and> lwt_libev_loop (\<lambda>c s. Inr s) [] (unlooped l_fresh s_init) =
       map_state (with_entry (Ev_unloop EVUNLOOP_ONE, 0) s_init)
         (lwt_libev_loop (\<lambda>c s. Inr s) [] s_init)
   \<and> signal_exn (s_init\<lparr>signal_exn := Some (User_exn 7)\<rparr>) = Some (User_exn 7)
   \<and> lwt_libev_loop (\<lambda>c s. Inr s) []
         (unlooped l_fresh (s_init\<lparr>signal_exn := Some (User_exn 7)\<rparr>)) =
       Inl (Raised (User_exn 7),
            s_init\<lparr>lwt_unix_main_loop := Some (l_fresh\<lparr>loop_done := EVUNLOOP_ONE\<rparr>),
                   trace := [(Ev_unloop EVUNLOOP_ONE, 0), (Caml_enter_blocking_section, 0)]\<rparr>)"
proof -
  let ?s = "s_init\<lparr>signal_exn := Some (User_exn 7)\<rparr>"
  have h: "lwt_unix_main_loop s_init = Some l_fresh" "signal_exn s_init = None"
    by (simp_all add: s_init_def s_null_def)
  have g: "lwt_unix_main_loop ?s = Some l_fresh" "signal_exn ?s = Some (User_exn 7)"
    by (simp_all add: s_init_def s_null_def)
  show ?thesis
    using h g C9_unloop [OF h(1), of "\<lambda>c s. Inr s" "[]"]
      C9_unloop [OF g(1), of "\<lambda>c s. Inr s" "[]" "User_exn 7"]
    by (simp add: s_init_def s_null_def unlooped_def log_def)
qed



end
